theory Spec2Isabelle
  imports Main
begin

section \<open>The streaming XML builder of ext/ox/builder.c\<close>

text \<open>
  A shallow embedding of \<^verbatim>\<open>builder.c\<close>. Bytes are \<^typ>\<open>char\<close>, byte strings are
  \<^typ>\<open>char list\<close>. A function of the C file that mutates the builder takes the builder
  and returns it; a function that can call \<^verbatim>\<open>rb_raise\<close> returns an \<open>outcome\<close>:
  \<open>Done\<close> with what it returns, or \<open>Raised\<close> with the error and the state reached at the
  raise, because nothing is rolled back there.
\<close>

subsection \<open>Errors and outcomes\<close>

text \<open>
  One constructor for each \<^verbatim>\<open>rb_raise\<close> site (and for the type checks of the Ruby C API),
  named after the error kinds of the specification; two more for what is undefined in C.
\<close>

datatype error =
    TooDeeplyNested          \<comment> \<open>\<^verbatim>\<open>ox_arg_error_class, "XML too deeply nested"\<close>\<close>
  | UnbalancedClose          \<comment> \<open>\<^verbatim>\<open>ox_arg_error_class, "closed to many element"\<close>\<close>
  | InvalidArgumentType      \<comment> \<open>\<^verbatim>\<open>"expected a Symbol or String"\<close>, \<^verbatim>\<open>Check_Type\<close>, \<^verbatim>\<open>StringValuePtr\<close>, \<^verbatim>\<open>ox_parse_error_class\<close>\<close>
  | InvalidCharacter char    \<comment> \<open>\<^verbatim>\<open>rb_eSyntaxError, "... is not a valid XML character."\<close>\<close>
  | SinkUnavailable          \<comment> \<open>\<^verbatim>\<open>rb_eIOError\<close>\<close>
  | UnsupportedOperation     \<comment> \<open>\<^verbatim>\<open>"can not create a String with a stream or file builder."\<close>\<close>
  | MissingArgument          \<comment> \<open>\<^verbatim>\<open>"missing element name"\<close>\<close>
  | OutOfBoundsRead          \<comment> \<open>a read outside the array or buffer it is made on (undefined in C)\<close>
  | DoubleClose              \<comment> \<open>\<^verbatim>\<open>fclose\<close> of a stream that is closed already (undefined in C)\<close>

datatype ('a, 's) outcome = Done 'a | Raised error 's

type_synonym 's res = "('s, 's) outcome"

subsection \<open>C integers\<close>

definition size_t :: "nat \<Rightarrow> nat" where
  "size_t n = n mod 2 ^ 64"

definition c_int :: "int \<Rightarrow> int" where
  \<comment> \<open>the value an \<^verbatim>\<open>int\<close> holds after a conversion or an operation that wraps\<close>
  "c_int n = (let m = n mod 2 ^ 32 in if m < 2 ^ 31 then m else m - 2 ^ 32)"

definition int_to_size_t :: "int \<Rightarrow> nat" where
  \<comment> \<open>an \<^verbatim>\<open>int\<close> converted to \<^verbatim>\<open>size_t\<close>: a negative one becomes huge\<close>
  "int_to_size_t n = nat (n mod 2 ^ 64)"

subsection \<open>The output buffer (buf.h)\<close>

text \<open>
  \<^verbatim>\<open>buf.h\<close> is not among the sources at hand. \<open>pending\<close> holds the bytes between
  \<^verbatim>\<open>head\<close> and \<^verbatim>\<open>tail\<close>, \<open>written\<close> the bytes handed to the descriptor so far.
\<close>

record Buf =
  pending :: "char list"
  fd :: int
  written :: "char list"

definition buf_init :: "int \<Rightarrow> int \<Rightarrow> Buf" where
  \<comment> \<open>Modelled from the spec: \<^verbatim>\<open>buf_init\<close> of buf.h; the sink starts empty, the size is only a capacity hint.\<close>
  "buf_init fd' initial_size = \<lparr>pending = [], fd = fd', written = []\<rparr>"

definition buf_append_string :: "Buf \<Rightarrow> char list \<Rightarrow> nat \<Rightarrow> Buf" where
  \<comment> \<open>Modelled from the spec: \<^verbatim>\<open>buf_append_string\<close> of buf.h; append(bytes) appends the first \<open>slen\<close> bytes at \<open>s\<close>, growing the storage as needed.\<close>
  "buf_append_string buf s slen = buf\<lparr>pending := pending buf @ take slen s\<rparr>"

definition buf_append :: "Buf \<Rightarrow> char \<Rightarrow> Buf" where
  \<comment> \<open>Modelled from the spec: \<^verbatim>\<open>buf_append\<close> of buf.h; append of one byte.\<close>
  "buf_append buf c = buf\<lparr>pending := pending buf @ [c]\<rparr>"

definition buf_len :: "Buf \<Rightarrow> nat" where
  \<comment> \<open>Modelled from the spec: \<^verbatim>\<open>buf_len\<close> of buf.h; current_length().\<close>
  "buf_len buf = length (pending buf)"

definition buf_finish :: "Buf \<Rightarrow> Buf" where
  \<comment> \<open>Modelled from the spec: \<^verbatim>\<open>buf_finish\<close> of buf.h; finish() flushes what is pending to a descriptor, and does nothing to a memory buffer.\<close>
  "buf_finish buf =
     (if fd buf \<noteq> 0 then buf\<lparr>written := written buf @ pending buf, pending := []\<rparr> else buf)"

definition emitted :: "Buf \<Rightarrow> char list" where
  \<comment> \<open>every byte the sink has received, in order\<close>
  "emitted buf = written buf @ pending buf"

subsection \<open>The Escaper\<close>

definition NUL :: char where
  "NUL = CHR 0x00"

definition xml_friendly_chars :: "char list" where
  "xml_friendly_chars =
     '':::::::::11::1::::::::::::::::::'' @
     ''11611156111111111111111111114141'' @
     ''11111111111111111111111111111111'' @
     ''11111111111111111111111111111111'' @
     ''11111111111111111111111111111111'' @
     ''11111111111111111111111111111111'' @
     ''11111111111111111111111111111111'' @
     ''11111111111111111111111111111111'' @ [NUL]"

text \<open>
  \<^verbatim>\<open>xml_str_len\<close>: the loop counts \<^verbatim>\<open>len\<close> down while it sums the table entries, and
  the return statement uses the \<^verbatim>\<open>len\<close> the loop has left. The list is the memory at
  \<^verbatim>\<open>str\<close>; every caller passes its length.
\<close>

fun xml_str_len_loop :: "char list \<Rightarrow> nat \<Rightarrow> nat \<Rightarrow> nat \<times> nat" where
  "xml_str_len_loop (c # str) len sz =
     (if 0 < len
      then xml_str_len_loop str (len - 1) (size_t (sz + of_char (xml_friendly_chars ! of_char c)))
      else (sz, len))"
| "xml_str_len_loop [] len sz = (sz, len)"

definition xml_str_len :: "char list \<Rightarrow> nat \<Rightarrow> nat" where
  "xml_str_len str len0 =
     (case xml_str_len_loop str len0 0 of
        (sz, len) \<Rightarrow> size_t (sz + 2 ^ 64 - size_t (len * of_char CHR ''0'')))"

text \<open>
  \<^verbatim>\<open>append_string\<close>. \<open>lbuf\<close> is the part of the local \<^verbatim>\<open>buf[256]\<close> between \<^verbatim>\<open>buf\<close>
  and \<^verbatim>\<open>bp\<close>; \<^verbatim>\<open>end\<close> is \<^verbatim>\<open>buf + 255\<close>. The byte after the last byte of a Ruby
  string or of a symbol's name is the terminating NUL, so the loop test reads NUL when the
  list is exhausted. A \<open>sz\<close> beyond the string makes the first pass read past it.
\<close>

fun append_string_loop :: "Buf \<Rightarrow> char list \<Rightarrow> char list \<Rightarrow> int \<Rightarrow> Buf res" where
  "append_string_loop b lbuf [] i =
     Done (if lbuf \<noteq> [] then buf_append_string b lbuf (length lbuf) else b)"
| "append_string_loop b lbuf (c # str) i =
     (if c \<noteq> NUL \<and> 0 < i then
        if xml_friendly_chars ! of_char c = CHR ''1'' then
          (if 255 \<le> length lbuf
           then append_string_loop (buf_append_string b lbuf (length lbuf)) [c] str (i - 1)
           else append_string_loop b (lbuf @ [c]) str (i - 1))
        else
          (let b = (if lbuf \<noteq> [] then buf_append_string b lbuf (length lbuf) else b) in
           if c = CHR 0x22 then append_string_loop (buf_append_string b ''&quot;'' 6) [] str (i - 1)
           else if c = CHR ''&'' then append_string_loop (buf_append_string b ''&amp;'' 5) [] str (i - 1)
           else if c = CHR 0x27 then append_string_loop (buf_append_string b ''&apos;'' 6) [] str (i - 1)
           else if c = CHR ''<'' then append_string_loop (buf_append_string b ''&lt;'' 4) [] str (i - 1)
           else if c = CHR ''>'' then append_string_loop (buf_append_string b ''&gt;'' 4) [] str (i - 1)
           else Raised (InvalidCharacter c) b)
      else Done (if lbuf \<noteq> [] then buf_append_string b lbuf (length lbuf) else b))"

definition append_string :: "Buf \<Rightarrow> char list \<Rightarrow> nat \<Rightarrow> Buf res" where
  "append_string b str sz =
     (if length str < sz then Raised OutOfBoundsRead b
      else
        let xsize = xml_str_len str sz in
        if sz = xsize then Done (buf_append_string b str sz)
        else append_string_loop b [] str (c_int (int sz)))"

subsection \<open>Ruby values\<close>

text \<open>
  What the builder looks at in a \<^verbatim>\<open>VALUE\<close>: whether it is a String (with its bytes), a
  Symbol (with the memory at \<^verbatim>\<open>rb_id2name\<close>) or anything else.
\<close>

datatype VALUE = T_STRING "char list" | T_SYMBOL "char list" | T_OTHER

definition strlen :: "char list \<Rightarrow> nat" where
  "strlen s = length (takeWhile (\<lambda>c. c \<noteq> NUL) s)"

definition StringValuePtr :: "VALUE \<Rightarrow> char list option" where
  \<comment> \<open>\<^verbatim>\<open>StringValuePtr\<close> raises a TypeError for what is not a String and has no \<^verbatim>\<open>to_str\<close>\<close>
  "StringValuePtr v = (case v of T_STRING s \<Rightarrow> Some s | _ \<Rightarrow> None)"

subsection \<open>Element frames and the builder\<close>

text \<open>
  \<^verbatim>\<open>e->name\<close> points at the frame's own \<^verbatim>\<open>buf\<close>, at a block from \<^verbatim>\<open>strdup\<close>, or
  nowhere. \<open>ebuf\<close> is the frame's \<^verbatim>\<open>char buf[64]\<close>.
\<close>

datatype name_ptr = InlineBuf | HeapBlock "char list" | NullPtr

record Element =
  name :: name_ptr
  ebuf :: "char list"
  len :: int
  has_child :: bool
  non_text_child :: bool

datatype stream = Open | Closed

text \<open>
  \<open>stack\<close> is \<^verbatim>\<open>stack[MAX_DEPTH]\<close>: the cells 0 to 127 are the array, and the functions
  below never apply it to another index. \<open>file'\<close> (the field \<^verbatim>\<open>file\<close>) is \<open>None\<close> for \<^verbatim>\<open>NULL\<close>, and else
  the state of the stream the pointer refers to. \<open>encoding\<close> is the C string held in
  \<^verbatim>\<open>encoding[64]\<close>.
\<close>

record Builder =
  buf :: Buf
  indent :: int
  encoding :: "char list"
  depth :: int
  file' :: "stream option"
  stack :: "nat \<Rightarrow> Element"

definition MAX_DEPTH :: int where
  "MAX_DEPTH = 128"

definition indent_spaces :: "char list" where
  \<comment> \<open>a newline, 128 spaces and the terminating NUL: \<^verbatim>\<open>sizeof(indent_spaces)\<close> is 130\<close>
  "indent_spaces = CHR 0x0A # replicate 128 CHR '' '' @ [NUL]"

definition and_then :: "'s res \<Rightarrow> ('s \<Rightarrow> ('a, 's) outcome) \<Rightarrow> ('a, 's) outcome" where
  "and_then r f = (case r of Done s \<Rightarrow> f s | Raised e s \<Rightarrow> Raised e s)"

definition with_buf :: "Builder \<Rightarrow> Buf res \<Rightarrow> Builder res" where
  \<comment> \<open>a call on \<^verbatim>\<open>&b->buf\<close>\<close>
  "with_buf b r = (case r of Done bf \<Rightarrow> Done (b\<lparr>buf := bf\<rparr>) | Raised e bf \<Rightarrow> Raised e (b\<lparr>buf := bf\<rparr>))"

definition b_append :: "Builder \<Rightarrow> char \<Rightarrow> Builder" where
  \<comment> \<open>\<^verbatim>\<open>buf_append(&b->buf, c)\<close>\<close>
  "b_append b c = b\<lparr>buf := buf_append (buf b) c\<rparr>"

definition b_append_string :: "Builder \<Rightarrow> char list \<Rightarrow> nat \<Rightarrow> Builder" where
  \<comment> \<open>\<^verbatim>\<open>buf_append_string(&b->buf, s, slen)\<close>\<close>
  "b_append_string b s slen = b\<lparr>buf := buf_append_string (buf b) s slen\<rparr>"

definition append_value :: "Builder \<Rightarrow> VALUE \<Rightarrow> Builder res" where
  \<comment> \<open>\<^verbatim>\<open>buf_append_string(&b->buf, StringValuePtr(v), RSTRING_LEN(v))\<close>\<close>
  "append_value b v =
     (case StringValuePtr v of
        None \<Rightarrow> Raised InvalidArgumentType b
      | Some s \<Rightarrow> Done (b_append_string b s (length s)))"

definition append_indent :: "Builder \<Rightarrow> Builder" where
  "append_indent b =
     (if indent b = 0 then b
      else if pending (buf b) \<noteq> [] then
        let cnt = c_int (indent b * (depth b + 1) + 1);
            cnt = (if length indent_spaces \<le> int_to_size_t cnt
                   then int (length indent_spaces) - 1 else cnt)
        in b_append_string b indent_spaces (int_to_size_t cnt)
      else b)"

definition append_sym_str :: "Buf \<Rightarrow> VALUE \<Rightarrow> Buf res" where
  "append_sym_str b v =
     (case v of
        T_STRING s \<Rightarrow> append_string b s (int_to_size_t (c_int (int (length s))))
      | T_SYMBOL s \<Rightarrow> append_string b s (int_to_size_t (c_int (int (strlen s))))
      | T_OTHER \<Rightarrow> Raised InvalidArgumentType b)"

definition i_am_a_child :: "Builder \<Rightarrow> bool \<Rightarrow> Builder res" where
  "i_am_a_child b is_text =
     (if 0 \<le> depth b then
        if MAX_DEPTH \<le> depth b then Raised OutOfBoundsRead b
        else
          let d = nat (depth b);
              b = (if \<not> has_child (stack b d)
                   then b_append (b\<lparr>stack := (stack b)(d := (stack b d)\<lparr>has_child := True\<rparr>)\<rparr>) CHR ''>''
                   else b);
              b = (if \<not> is_text
                   then b\<lparr>stack := (stack b)(d := (stack b d)\<lparr>non_text_child := True\<rparr>)\<rparr>
                   else b)
          in Done b
      else Done b)"

definition append_attr :: "VALUE \<Rightarrow> VALUE \<Rightarrow> Builder \<Rightarrow> Builder res" where
  "append_attr key val b =
     (let b = b_append b CHR '' '' in
      and_then (with_buf b (append_sym_str (buf b) key)) (\<lambda>b.
        let b = b_append_string b [CHR ''='', CHR 0x22] 2 in
        case val of
          T_STRING s \<Rightarrow> Done (b_append (b_append_string b s (length s)) CHR 0x22)
        | _ \<Rightarrow> Raised InvalidArgumentType b))"

fun rb_hash_foreach :: "(VALUE \<times> VALUE) list \<Rightarrow> Builder \<Rightarrow> Builder res" where
  \<comment> \<open>\<^verbatim>\<open>rb_hash_foreach(hash, append_attr, (VALUE)b)\<close>, the hash in its iteration order\<close>
  "rb_hash_foreach [] b = Done b"
| "rb_hash_foreach ((key, val) # hash) b = and_then (append_attr key val b) (rb_hash_foreach hash)"

definition init :: "Builder \<Rightarrow> int \<Rightarrow> int \<Rightarrow> int \<Rightarrow> Builder" where
  \<comment> \<open>\<open>b\<close> is the memory \<^verbatim>\<open>ALLOC\<close> returned, with whatever it holds\<close>
  "init b fd' indent' initial_size =
     b\<lparr>buf := buf_init fd' initial_size, indent := indent', encoding := [], depth := - 1\<rparr>"

definition read_bytes :: "char list \<Rightarrow> nat \<Rightarrow> char list option" where
  \<comment> \<open>the first \<open>n\<close> bytes of a memory area, if it has that many\<close>
  "read_bytes mem n = (if n \<le> length mem then Some (take n mem) else None)"

definition name_memory :: "Element \<Rightarrow> char list" where
  \<comment> \<open>the memory \<^verbatim>\<open>e->name\<close> points at\<close>
  "name_memory e = (case name e of InlineBuf \<Rightarrow> ebuf e | HeapBlock blk \<Rightarrow> blk | NullPtr \<Rightarrow> [])"

definition append_name :: "Builder \<Rightarrow> Element \<Rightarrow> Builder res" where
  \<comment> \<open>\<^verbatim>\<open>buf_append_string(&b->buf, e->name, e->len)\<close>\<close>
  "append_name b e =
     (case read_bytes (name_memory e) (int_to_size_t (len e)) of
        None \<Rightarrow> Raised OutOfBoundsRead b
      | Some bytes \<Rightarrow> Done (b_append_string b bytes (int_to_size_t (len e))))"

definition pop :: "Builder \<Rightarrow> Builder res" where
  "pop b =
     (if 0 > depth b then Raised UnbalancedClose b
      else if MAX_DEPTH \<le> depth b then Raised OutOfBoundsRead b
      else
        let d = nat (depth b);
            e = stack b d;
            b = b\<lparr>depth := depth b - 1\<rparr>
        in
          if has_child e then
            let b = (if non_text_child e then append_indent b else b);
                b = b_append_string b ''</'' 2
            in and_then (append_name b e) (\<lambda>b.
                 let b = b_append b CHR ''>'' in
                 Done (if name e \<noteq> InlineBuf
                       then b\<lparr>stack := (stack b)(d := e\<lparr>name := NullPtr\<rparr>)\<rparr>
                       else b))
          else Done (b_append_string b ''/>'' 2))"

function bclose_loop :: "Builder \<Rightarrow> Builder res" where
  \<comment> \<open>\<^verbatim>\<open>while (0 <= b->depth) { pop(b); }\<close>\<close>
  "bclose_loop b =
     (if 0 \<le> depth b
      then (case pop b of Done b' \<Rightarrow> bclose_loop b' | Raised e b' \<Rightarrow> Raised e b')
      else Done b)"
  by pat_completeness auto
termination
proof (relation "measure (\<lambda>b. nat (depth b + 1))")
  show "wf (measure (\<lambda>b. nat (depth b + 1)))" by simp
next
  fix b b' :: Builder
  assume "0 \<le> depth b" and "pop b = Done b'"
  then have "depth b' = depth b - 1"
    by (auto simp: pop_def and_then_def append_name_def b_append_def b_append_string_def
        append_indent_def Let_def split: if_splits option.splits)
  with \<open>0 \<le> depth b\<close> show "(b', b) \<in> measure (\<lambda>b. nat (depth b + 1))" by simp
qed

definition fclose :: "Builder \<Rightarrow> Builder res" where
  \<comment> \<open>\<^verbatim>\<open>if (NULL != b->file) { fclose(b->file); }\<close>: the pointer stays as it is\<close>
  "fclose b =
     (case file' b of
        None \<Rightarrow> Done b
      | Some Open \<Rightarrow> Done (b\<lparr>file' := Some Closed\<rparr>)
      | Some Closed \<Rightarrow> Raised DoubleClose b)"

definition bclose :: "Builder \<Rightarrow> Builder res" where
  "bclose b =
     and_then (bclose_loop b) (\<lambda>b.
       let b = b_append b CHR 0x0A;
           b = b\<lparr>buf := buf_finish (buf b)\<rparr>
       in fclose b)"

text \<open>
  A Ruby String as \<^verbatim>\<open>to_s\<close> returns it: its bytes, and the name of the encoding
  associated with it (empty for none).
\<close>

type_synonym rstring = "char list \<times> char list"

definition to_s :: "Builder \<Rightarrow> (rstring \<times> Builder, Builder) outcome" where
  \<comment> \<open>\<^verbatim>\<open>*(b->buf.tail - 1)\<close> is the last pending byte, and lies before \<^verbatim>\<open>head\<close> when there is none\<close>
  "to_s b =
     (if fd (buf b) \<noteq> 0 then Raised UnsupportedOperation b
      else if pending (buf b) = [] then Raised OutOfBoundsRead b
      else
        let b = (if last (pending (buf b)) \<noteq> CHR 0x0A then b_append b CHR 0x0A else b)
        in Done ((take (buf_len (buf b)) (pending (buf b)), encoding b), b))"

subsection \<open>The methods of Ox::Builder\<close>

text \<open>
  A block is the effect of its body on the builder. The parsing of the option hashes is left
  out: the constructors take the indentation and the size, \<^verbatim>\<open>instruct\<close> takes the three
  values it looks up (\<open>None\<close> for \<^verbatim>\<open>Qnil\<close>).
\<close>

type_synonym block = "Builder \<Rightarrow> Builder res"

definition builder_new ::
  "Builder \<Rightarrow> int \<Rightarrow> int \<Rightarrow> block option \<Rightarrow> (rstring option \<times> Builder, Builder) outcome" where
  "builder_new b indent' buf_size blk =
     (let b = init (b\<lparr>file' := None\<rparr>) 0 indent' buf_size in
      case blk of
        None \<Rightarrow> Done (None, b)
      | Some yield \<Rightarrow>
          and_then (and_then (yield b) bclose) (\<lambda>b.
            case to_s b of Done (r, b) \<Rightarrow> Done (Some r, b) | Raised e b \<Rightarrow> Raised e b))"

definition builder_file ::
  "Builder \<Rightarrow> int option \<Rightarrow> int \<Rightarrow> int \<Rightarrow> block option \<Rightarrow> Builder res" where
  \<comment> \<open>\<open>f\<close> is what \<^verbatim>\<open>fopen\<close> gave: \<open>None\<close> for \<^verbatim>\<open>NULL\<close>, else the stream's \<^verbatim>\<open>fileno\<close>\<close>
  "builder_file b f indent' buf_size blk =
     (case f of
        None \<Rightarrow> Raised SinkUnavailable b
      | Some fileno \<Rightarrow>
          let b = init (b\<lparr>file' := Some Open\<rparr>) fileno indent' buf_size in
          (case blk of None \<Rightarrow> Done b | Some yield \<Rightarrow> and_then (yield b) bclose))"

definition builder_io ::
  "Builder \<Rightarrow> int option \<Rightarrow> int \<Rightarrow> int \<Rightarrow> block option \<Rightarrow> Builder res" where
  \<comment> \<open>\<open>v\<close> is what the IO object's \<^verbatim>\<open>fileno\<close> gave, \<open>None\<close> when it has none or gave nil\<close>
  "builder_io b v indent' buf_size blk =
     (case v of
        None \<Rightarrow> Raised SinkUnavailable b
      | Some fd' \<Rightarrow>
          if fd' = 0 then Raised SinkUnavailable b
          else
            let b = init (b\<lparr>file' := None\<rparr>) fd' indent' buf_size in
            (case blk of None \<Rightarrow> Done b | Some yield \<Rightarrow> and_then (yield b) bclose))"

record instruct_options =
  opt_version :: "VALUE option"
  opt_encoding :: "VALUE option"
  opt_standalone :: "VALUE option"

definition instruct_option :: "Builder \<Rightarrow> char list \<Rightarrow> nat \<Rightarrow> VALUE \<Rightarrow> Builder res" where
  \<comment> \<open>one of the three options: the class check, the label, the value, the closing quote\<close>
  "instruct_option b label n v =
     (case v of
        T_STRING s \<Rightarrow> Done (b_append (b_append_string (b_append_string b label n) s (length s)) CHR 0x22)
      | _ \<Rightarrow> Raised InvalidArgumentType b)"

definition builder_instruct ::
  "Builder \<Rightarrow> VALUE option \<Rightarrow> instruct_options option \<Rightarrow> Builder res" where
  "builder_instruct b decl options =
     and_then (i_am_a_child b False) (\<lambda>b.
       let b = append_indent b in
       case decl of
         None \<Rightarrow> Done (b_append_string b ''<?xml?>'' 7)
       | Some target \<Rightarrow>
           let b = b_append_string b ''<?'' 2 in
           and_then (with_buf b (append_sym_str (buf b) target)) (\<lambda>b.
             and_then
               (case options of
                  None \<Rightarrow> Done b
                | Some h \<Rightarrow>
                    and_then
                      (case opt_version h of
                         None \<Rightarrow> Done b
                       | Some v \<Rightarrow> instruct_option b ('' version='' @ [CHR 0x22]) 10 v) (\<lambda>b.
                    and_then
                      (case opt_encoding h of
                         None \<Rightarrow> Done b
                       | Some v \<Rightarrow>
                           and_then (instruct_option b ('' encoding='' @ [CHR 0x22]) 11 v) (\<lambda>b.
                             Done (case v of
                                     T_STRING s \<Rightarrow> b\<lparr>encoding := take 63 (takeWhile (\<lambda>c. c \<noteq> NUL) s)\<rparr>
                                   | _ \<Rightarrow> b))) (\<lambda>b.
                      case opt_standalone h of
                        None \<Rightarrow> Done b
                      | Some v \<Rightarrow> instruct_option b ('' standalone='' @ [CHR 0x22]) 13 v)))
               (\<lambda>b. Done (b_append_string b ''?>'' 2))))"

definition set_name :: "Element \<Rightarrow> char list \<Rightarrow> int \<Rightarrow> Element" where
  \<comment> \<open>the \<^verbatim>\<open>strdup\<close> or \<^verbatim>\<open>strcpy\<close> of the name, which both stop at the first NUL\<close>
  "set_name e nm len' =
     (let cstr = takeWhile (\<lambda>c. c \<noteq> NUL) nm @ [NUL] in
      if 64 \<le> int_to_size_t len'
      then e\<lparr>name := HeapBlock cstr, ebuf := (ebuf e)[0 := NUL]\<rparr>
      else e\<lparr>name := InlineBuf, ebuf := cstr @ drop (length cstr) (ebuf e)\<rparr>)"

definition builder_element ::
  "Builder \<Rightarrow> VALUE option \<Rightarrow> (VALUE \<times> VALUE) list option \<Rightarrow> block option \<Rightarrow> Builder res" where
  \<comment> \<open>\<open>argv0\<close> and \<open>argv1\<close> are \<open>None\<close> when \<^verbatim>\<open>argc\<close> does not reach them\<close>
  "builder_element b argv0 argv1 blk =
     (case argv0 of
        None \<Rightarrow> Raised MissingArgument b
      | Some v \<Rightarrow>
          and_then (i_am_a_child b False) (\<lambda>b.
            let b = append_indent b;
                b = b\<lparr>depth := depth b + 1\<rparr>
            in
              if MAX_DEPTH \<le> depth b then Raised TooDeeplyNested b
              else
                case (case v of
                        T_STRING s \<Rightarrow> Some (s, c_int (int (length s)))
                      | T_SYMBOL s \<Rightarrow> Some (s, c_int (int (strlen s)))
                      | T_OTHER \<Rightarrow> None) of
                  None \<Rightarrow> Raised InvalidArgumentType b
                | Some (nm, len') \<Rightarrow>
                    let d = nat (depth b);
                        e = (set_name (stack b d) nm len')
                              \<lparr>len := len', has_child := False, non_text_child := False\<rparr>;
                        b = b\<lparr>stack := (stack b)(d := e)\<rparr>;
                        b = b_append b CHR ''<''
                    in
                      and_then (append_name b e) (\<lambda>b.
                        and_then (case argv1 of None \<Rightarrow> Done b | Some hash \<Rightarrow> rb_hash_foreach hash b) (\<lambda>b.
                          case blk of
                            None \<Rightarrow> Done b
                          | Some yield \<Rightarrow> and_then (yield b) pop))))"

definition builder_comment :: "Builder \<Rightarrow> VALUE \<Rightarrow> Builder res" where
  "builder_comment b text' =
     and_then (i_am_a_child b False) (\<lambda>b.
       let b = append_indent b;
           b = b_append_string b ''<!-- '' 5
       in and_then (append_value b text') (\<lambda>b.
            Done (b_append_string b '' --/> '' 5)))"

definition builder_doctype :: "Builder \<Rightarrow> VALUE \<Rightarrow> Builder res" where
  "builder_doctype b text' =
     and_then (i_am_a_child b False) (\<lambda>b.
       let b = append_indent b;
           b = b_append_string b ''<!DOCTYPE '' 10
       in and_then (append_value b text') (\<lambda>b.
            Done (b_append b CHR ''>'')))"

definition builder_text :: "Builder \<Rightarrow> VALUE \<Rightarrow> Builder res" where
  "builder_text b text' =
     and_then (i_am_a_child b True) (\<lambda>b.
       case StringValuePtr text' of
         None \<Rightarrow> Raised InvalidArgumentType b
       | Some s \<Rightarrow> with_buf b (append_string (buf b) s (length s)))"

definition builder_cdata :: "Builder \<Rightarrow> VALUE \<Rightarrow> Builder res" where
  "builder_cdata b data =
     and_then (i_am_a_child b False) (\<lambda>b.
       let b = append_indent b;
           b = b_append_string b ''<![CDATA['' 9
       in and_then (append_value b data) (\<lambda>b.
            Done (b_append_string b '']]>'' 3)))"

definition builder_raw :: "Builder \<Rightarrow> VALUE \<Rightarrow> Builder res" where
  "builder_raw b text' =
     and_then (i_am_a_child b True) (\<lambda>b. append_value b text')"

definition builder_to_s :: "Builder \<Rightarrow> (rstring \<times> Builder, Builder) outcome" where
  "builder_to_s b = to_s b"

definition builder_pop :: "Builder \<Rightarrow> Builder res" where
  "builder_pop b = pop b"

definition builder_close :: "Builder \<Rightarrow> Builder res" where
  "builder_close b = bclose b"

subsection \<open>Call sequences\<close>

text \<open>
  What a caller does with a builder: a sequence of method calls, where a call of
  \<^verbatim>\<open>element\<close> may carry a block, itself a sequence of calls. An exception ends the
  sequence where it is raised.
\<close>

datatype call =
    Instruct "VALUE option" "instruct_options option"
  | Element "VALUE option" "(VALUE \<times> VALUE) list option" "call list option"
  | Comment VALUE
  | Doctype VALUE
  | Text VALUE
  | CData VALUE
  | Raw VALUE
  | To_s
  | Pop
  | Close

fun exec :: "call \<Rightarrow> Builder \<Rightarrow> Builder res"
  and run :: "call list \<Rightarrow> Builder \<Rightarrow> Builder res" where
  "exec (Instruct decl options) b = builder_instruct b decl options"
| "exec (Element argv0 argv1 None) b = builder_element b argv0 argv1 None"
| "exec (Element argv0 argv1 (Some body)) b = builder_element b argv0 argv1 (Some (\<lambda>b'. run body b'))"
| "exec (Comment v) b = builder_comment b v"
| "exec (Doctype v) b = builder_doctype b v"
| "exec (Text v) b = builder_text b v"
| "exec (CData v) b = builder_cdata b v"
| "exec (Raw v) b = builder_raw b v"
| "exec To_s b = (case builder_to_s b of Done (r, b') \<Rightarrow> Done b' | Raised e b' \<Rightarrow> Raised e b')"
| "exec Pop b = builder_pop b"
| "exec Close b = builder_close b"
| "run [] b = Done b"
| "run (c # cs) b = (case exec c b of Done b' \<Rightarrow> run cs b' | Raised e b' \<Rightarrow> Raised e b')"

section \<open>Reference notions\<close>

text \<open>
  The definitions of this section are not translations of the C file. They say what the
  properties below are about: what a call left behind, and what the specification calls
  escaping, an illegal byte, a session with a builder.
\<close>

subsection \<open>Observing an outcome\<close>

definition raised :: "('a, 's) outcome \<Rightarrow> error option" where
  "raised r = (case r of Done x \<Rightarrow> None | Raised e s \<Rightarrow> Some e)"

definition state_of :: "'s res \<Rightarrow> 's" where
  \<comment> \<open>the state a call leaves, whether it returned or raised\<close>
  "state_of r = (case r of Done s \<Rightarrow> s | Raised e s \<Rightarrow> s)"

definition add_bytes :: "Buf \<Rightarrow> char list \<Rightarrow> Buf" where
  "add_bytes b bytes = b\<lparr>pending := pending b @ bytes\<rparr>"

subsection \<open>A fresh builder\<close>

text \<open>
  Zeroed memory stands for what \<^verbatim>\<open>ALLOC\<close> returns wherever an example needs a concrete
  builder; the general statements are about any memory.
\<close>

definition blank_element :: Element where
  "blank_element = \<lparr>name = NullPtr, ebuf = replicate 64 NUL, len = 0,
     has_child = False, non_text_child = False\<rparr>"

definition blank :: Builder where
  "blank = \<lparr>buf = \<lparr>pending = [], fd = 0, written = []\<rparr>, indent = 0, encoding = [],
     depth = 0, file' = None, stack = (\<lambda>k. blank_element)\<rparr>"

definition session :: "Builder \<Rightarrow> int \<Rightarrow> int \<Rightarrow> call list \<Rightarrow> Builder res" where
  \<comment> \<open>\<^verbatim>\<open>Ox::Builder.new(indent: ..., size: ...)\<close> without a block, then the calls on what it returns\<close>
  "session b indent' buf_size calls =
     (case builder_new b indent' buf_size None of
        Done (r, b') \<Rightarrow> run calls b'
      | Raised e b' \<Rightarrow> Raised e b')"

subsection \<open>Escaping, in the words of the specification\<close>

definition illegal_byte :: "char \<Rightarrow> bool" where
  \<comment> \<open>a control byte outside the whitelist of tab, newline and carriage return\<close>
  "illegal_byte c =
     ((of_char c :: nat) < 32 \<and> c \<noteq> CHR 0x09 \<and> c \<noteq> CHR 0x0A \<and> c \<noteq> CHR 0x0D)"

definition special_byte :: "char \<Rightarrow> bool" where
  "special_byte c =
     (c = CHR 0x22 \<or> c = CHR ''&'' \<or> c = CHR 0x27 \<or> c = CHR ''<'' \<or> c = CHR ''>'')"

definition entity :: "char \<Rightarrow> char list" where
  "entity c =
     (if c = CHR 0x22 then ''&quot;''
      else if c = CHR ''&'' then ''&amp;''
      else if c = CHR 0x27 then ''&apos;''
      else if c = CHR ''<'' then ''&lt;''
      else if c = CHR ''>'' then ''&gt;''
      else [c])"

definition escape :: "char list \<Rightarrow> char list" where
  \<comment> \<open>each of the five bytes replaced by its named entity, every other byte verbatim\<close>
  "escape s = concat (map entity s)"

definition strip_prefix :: "char list \<Rightarrow> char list \<Rightarrow> char list option" where
  "strip_prefix p s = (if take (length p) s = p then Some (drop (length p) s) else None)"

function unescape :: "char list \<Rightarrow> char list" where
  \<comment> \<open>the five named entities reversed\<close>
  "unescape [] = []"
| "unescape (c # s) =
     (if c = CHR ''&'' then
        (case strip_prefix ''quot;'' s of Some r \<Rightarrow> CHR 0x22 # unescape r | None \<Rightarrow>
        (case strip_prefix ''amp;'' s of Some r \<Rightarrow> CHR ''&'' # unescape r | None \<Rightarrow>
        (case strip_prefix ''apos;'' s of Some r \<Rightarrow> CHR 0x27 # unescape r | None \<Rightarrow>
        (case strip_prefix ''lt;'' s of Some r \<Rightarrow> CHR ''<'' # unescape r | None \<Rightarrow>
        (case strip_prefix ''gt;'' s of Some r \<Rightarrow> CHR ''>'' # unescape r | None \<Rightarrow>
         c # unescape s)))))
      else c # unescape s)"
  by pat_completeness auto
termination
  by (relation "measure length") (auto simp: strip_prefix_def split: if_splits)

definition legal_prefix :: "char list \<Rightarrow> char list" where
  \<comment> \<open>the input up to its first illegal byte\<close>
  "legal_prefix str = takeWhile (\<lambda>c. \<not> illegal_byte c) str"

definition first_illegal :: "char list \<Rightarrow> char option" where
  "first_illegal str =
     (case dropWhile (\<lambda>c. \<not> illegal_byte c) str of [] \<Rightarrow> None | c # rest \<Rightarrow> Some c)"

definition slow_path :: "Buf \<Rightarrow> char list \<Rightarrow> Buf res" where
  \<comment> \<open>the closed form of the second pass of \<^verbatim>\<open>append_string\<close>\<close>
  "slow_path b str =
     (case first_illegal str of
        None \<Rightarrow> Done (add_bytes b (escape (legal_prefix str)))
      | Some c \<Rightarrow>
          if c = NUL then Done (add_bytes b (escape (legal_prefix str)))
          else Raised (InvalidCharacter c) (add_bytes b (escape (legal_prefix str))))"

definition table_low_rows :: "char list" where
  \<comment> \<open>the first two rows of \<open>xml_friendly_chars\<close>; the other six hold \<^verbatim>\<open>1\<close> only\<close>
  "table_low_rows = '':::::::::11::1::::::::::::::::::'' @ ''11611156111111111111111111114141''"

definition escaping_error :: "char list \<Rightarrow> error option" where
  \<comment> \<open>the error of the escaping path: the first illegal byte of the input, unless it is NUL\<close>
  "escaping_error str =
     (case first_illegal str of
        None \<Rightarrow> None
      | Some c \<Rightarrow> if c = NUL then None else Some (InvalidCharacter c))"

subsection \<open>Documents and the calls that build them\<close>

text \<open>
  A well-formed call sequence is the sequence of calls that builds a document: an element
  is opened by \<^verbatim>\<open>element\<close> and closed either by the block of that call (the flag is
  \<open>True\<close>) or by a \<^verbatim>\<open>pop\<close> after its children; everything else is a single call.
\<close>

datatype node = Elem VALUE "(VALUE \<times> VALUE) list option" bool "node list" | Item call

fun text_node :: "node \<Rightarrow> bool" where
  "text_node (Item (Text v)) = True"
| "text_node (Item (Raw v)) = True"
| "text_node n = False"

fun calls_of :: "node \<Rightarrow> call list" where
  "calls_of (Item c) = [c]"
| "calls_of (Elem nm attrs blk kids) =
     (if blk then [Element (Some nm) attrs (Some (concat (map calls_of kids)))]
      else Element (Some nm) attrs None # concat (map calls_of kids) @ [Pop])"

fun flat :: "node \<Rightarrow> call list" where
  \<comment> \<open>the same calls with every block replaced by its body and a \<^verbatim>\<open>pop\<close>\<close>
  "flat (Item c) = [c]"
| "flat (Elem nm attrs blk kids) = Element (Some nm) attrs None # concat (map flat kids) @ [Pop]"

fun height :: "node \<Rightarrow> nat" where
  "height (Item c) = 0"
| "height (Elem nm attrs blk kids) = Suc (foldr (\<lambda>k m. max (height k) m) kids 0)"

definition heights :: "node list \<Rightarrow> nat" where
  "heights kids = foldr (\<lambda>k m. max (height k) m) kids 0"

text \<open>The values the calls of a document must carry for the calls not to raise.\<close>

definition name_bytes :: "VALUE \<Rightarrow> char list" where
  "name_bytes v = (case v of T_STRING s \<Rightarrow> s | T_SYMBOL s \<Rightarrow> s | T_OTHER \<Rightarrow> [])"

definition is_string :: "VALUE \<Rightarrow> bool" where
  "is_string v = (case v of T_STRING s \<Rightarrow> True | _ \<Rightarrow> False)"

definition name_ok :: "VALUE \<Rightarrow> bool" where
  \<comment> \<open>a String or Symbol that is a C string: the name is copied with \<^verbatim>\<open>strcpy\<close> or \<^verbatim>\<open>strdup\<close>\<close>
  "name_ok v = (v \<noteq> T_OTHER \<and> NUL \<notin> set (name_bytes v) \<and> length (name_bytes v) < 2 ^ 31)"

definition escapable :: "VALUE \<Rightarrow> bool" where
  \<comment> \<open>a String or Symbol without an illegal byte\<close>
  "escapable v =
     (v \<noteq> T_OTHER \<and> list_all (\<lambda>c. \<not> illegal_byte c) (name_bytes v) \<and> length (name_bytes v) < 2 ^ 31)"

definition attrs_ok :: "(VALUE \<times> VALUE) list option \<Rightarrow> bool" where
  "attrs_ok attrs =
     (case attrs of
        None \<Rightarrow> True
      | Some hash \<Rightarrow> list_all (\<lambda>kv. escapable (fst kv) \<and> is_string (snd kv)) hash)"

definition option_ok :: "VALUE option \<Rightarrow> bool" where
  "option_ok v = (case v of None \<Rightarrow> True | Some s \<Rightarrow> is_string s)"

fun leaf_ok :: "call \<Rightarrow> bool" where
  "leaf_ok (Text v) = (is_string v \<and> escapable v)"
| "leaf_ok (Raw v) = is_string v"
| "leaf_ok (Comment v) = is_string v"
| "leaf_ok (CData v) = is_string v"
| "leaf_ok (Doctype v) = is_string v"
| "leaf_ok (Instruct None options) = True"
| "leaf_ok (Instruct (Some target) None) = escapable target"
| "leaf_ok (Instruct (Some target) (Some h)) =
     (escapable target \<and> option_ok (opt_version h) \<and> option_ok (opt_encoding h) \<and>
      option_ok (opt_standalone h))"
| "leaf_ok c = False"

fun valid :: "node \<Rightarrow> bool" where
  "valid (Item c) = leaf_ok c"
| "valid (Elem nm attrs blk kids) = (name_ok nm \<and> attrs_ok attrs \<and> list_all valid kids)"

text \<open>
  The serialisation of a document, appended to what has been written: an element without
  children is \<^verbatim>\<open><name attrs/>\<close>, an element with children is \<^verbatim>\<open><name attrs>\<close>, its
  children, \<^verbatim>\<open></name>\<close>. A newline and \<open>indent * (depth + 1)\<close> spaces, at most 128, come
  before every child but text, and before the closing tag of an element that has a child
  other than text; nothing comes before the first bytes of the document. What an attribute
  list and a single call write is what the builder writes for them on its own.
\<close>

definition indentation :: "int \<Rightarrow> int \<Rightarrow> char list \<Rightarrow> char list" where
  "indentation ind d out =
     (if ind = 0 \<or> out = [] then out
      else out @ CHR 0x0A # replicate (min (nat (ind * (d + 1))) 128) CHR '' '')"

definition item_markup :: "call \<Rightarrow> char list" where
  \<comment> \<open>what the call writes as the first call on a fresh builder\<close>
  "item_markup c = emitted (buf (state_of (exec c (init blank 0 0 0))))"

definition attrs_markup :: "(VALUE \<times> VALUE) list option \<Rightarrow> char list" where
  \<comment> \<open>what the attributes write on a fresh builder\<close>
  "attrs_markup attrs =
     (case attrs of
        None \<Rightarrow> []
      | Some hash \<Rightarrow> emitted (buf (state_of (rb_hash_foreach hash (init blank 0 0 0)))))"

fun xml :: "int \<Rightarrow> int \<Rightarrow> node \<Rightarrow> char list \<Rightarrow> char list" where
  "xml ind d (Item c) out =
     (if text_node (Item c) then out else indentation ind d out) @ item_markup c"
| "xml ind d (Elem nm attrs blk kids) out =
     (let opened = indentation ind d out @ ''<'' @ name_bytes nm @ attrs_markup attrs in
      if kids = [] then opened @ ''/>''
      else
        let inner = fold (xml ind (d + 1)) kids (opened @ ''>'') in
        (if list_all text_node kids then inner else indentation ind d inner)
          @ ''</'' @ name_bytes nm @ ''>'')"

subsection \<open>Well-formed streams\<close>

text \<open>
  What the specification asks of the emitted bytes, read as XML reads them: every opened
  tag is terminated by exactly one matching close tag or by a self-close, and the tags nest.
  A \<^verbatim>\<open><\<close> starts markup: a comment runs from \<^verbatim>\<open><!--\<close> to the next \<^verbatim>\<open>-->\<close>, a CDATA section
  from \<^verbatim>\<open><![CDATA[\<close> to the next \<^verbatim>\<open>]]>\<close>, a processing instruction from \<^verbatim>\<open><?\<close> to the next
  \<^verbatim>\<open>?>\<close>, a declaration from \<^verbatim>\<open><!\<close> to the next \<^verbatim>\<open>>\<close>; \<^verbatim>\<open></name>\<close> closes the innermost
  open element, which must have that name; anything else is a start tag, a name followed by
  attributes \<^verbatim>\<open>key="value"\<close> (the value in double or single quotes, without \<^verbatim>\<open><\<close>) separated
  by white space, and ended by \<^verbatim>\<open>>\<close> or \<^verbatim>\<open>/>\<close>. Every other byte is text. The check is
  generous (it asks nothing of the bytes of a name but that they are no delimiters, nothing
  of \<^verbatim>\<open>&\<close> in text, and it accepts several root elements): a stream it refuses is not
  well-formed XML.
\<close>

definition space_byte :: "char \<Rightarrow> bool" where
  "space_byte c = (c = CHR '' '' \<or> c = CHR 0x09 \<or> c = CHR 0x0A \<or> c = CHR 0x0D)"

definition name_byte :: "char \<Rightarrow> bool" where
  "name_byte c =
     (\<not> space_byte c \<and> c \<noteq> CHR ''<'' \<and> c \<noteq> CHR ''>'' \<and> c \<noteq> CHR ''/'' \<and> c \<noteq> CHR ''='' \<and>
      c \<noteq> CHR 0x22 \<and> c \<noteq> CHR 0x27)"

fun skip_past :: "char list \<Rightarrow> char list \<Rightarrow> char list option" where
  \<comment> \<open>what follows the first occurrence of the terminator \<open>t\<close>, if there is one\<close>
  "skip_past t [] = None"
| "skip_past t (c # s) =
     (case strip_prefix t (c # s) of Some r \<Rightarrow> Some r | None \<Rightarrow> skip_past t s)"

definition attribute :: "char list \<Rightarrow> char list option" where
  \<comment> \<open>one attribute \<^verbatim>\<open>key = "value"\<close> at the head of \<open>s\<close>; what follows it\<close>
  "attribute s =
     (case dropWhile space_byte (dropWhile name_byte s) of
        [] \<Rightarrow> None
      | e # r \<Rightarrow>
          (case dropWhile space_byte r of
             [] \<Rightarrow> None
           | q # v \<Rightarrow>
               if takeWhile name_byte s \<noteq> [] \<and> e = CHR ''='' \<and> (q = CHR 0x22 \<or> q = CHR 0x27) \<and>
                  CHR ''<'' \<notin> set (takeWhile (\<lambda>c. c \<noteq> q) v)
               then (case dropWhile (\<lambda>c. c \<noteq> q) v of [] \<Rightarrow> None | q' # rest \<Rightarrow> Some rest)
               else None))"

function tag_end :: "char list \<Rightarrow> (bool \<times> char list) option" where
  \<comment> \<open>a start tag after its name: whether it closes itself, and what follows it\<close>
  "tag_end s =
     (case dropWhile space_byte s of
        [] \<Rightarrow> None
      | c # r \<Rightarrow>
          if c = CHR ''>'' then Some (False, r)
          else if c = CHR ''/'' then
            (case r of [] \<Rightarrow> None | g # r' \<Rightarrow> if g = CHR ''>'' then Some (True, r') else None)
          else if dropWhile space_byte s = s then None
          else (case attribute (c # r) of None \<Rightarrow> None | Some rest \<Rightarrow> tag_end rest))"
  by pat_completeness auto

termination
proof (relation "measure length")
  show "wf (measure length)" by simp
next
  fix s :: "char list" and c r rest
  assume d: "dropWhile space_byte s = c # r" and a: "attribute (c # r) = Some rest"
  from a obtain e r1 q v q' where
    1: "dropWhile space_byte (dropWhile name_byte (c # r)) = e # r1" and
    2: "dropWhile space_byte r1 = q # v" and
    3: "dropWhile (\<lambda>c. c \<noteq> q) v = q' # rest"
    by (auto simp: attribute_def split: list.splits if_splits)
  have "length (q' # rest) \<le> length v" unfolding 3 [symmetric] by (rule length_dropWhile_le)
  moreover have "length (q # v) \<le> length r1" unfolding 2 [symmetric] by (rule length_dropWhile_le)
  moreover have "length (e # r1) \<le> length (dropWhile name_byte (c # r))"
    unfolding 1 [symmetric] by (rule length_dropWhile_le)
  moreover have "length (dropWhile name_byte (c # r)) \<le> length (c # r)"
    by (rule length_dropWhile_le)
  moreover have "length (c # r) \<le> length s" unfolding d [symmetric] by (rule length_dropWhile_le)
  ultimately show "(rest, s) \<in> measure length" by simp
qed

function well_nested :: "char list list \<Rightarrow> char list \<Rightarrow> bool" where
  \<comment> \<open>\<open>stk\<close> holds the names of the open elements, the innermost first\<close>
  "well_nested stk [] = (stk = [])"
| "well_nested stk (c # s) =
     (if c \<noteq> CHR ''<'' then well_nested stk s
      else case strip_prefix ''!--'' s of
        Some r \<Rightarrow> (case skip_past ''-->'' r of None \<Rightarrow> False | Some r' \<Rightarrow> well_nested stk r')
      | None \<Rightarrow>
      (case strip_prefix ''![CDATA['' s of
        Some r \<Rightarrow> (case skip_past '']]>'' r of None \<Rightarrow> False | Some r' \<Rightarrow> well_nested stk r')
      | None \<Rightarrow>
      (case strip_prefix ''?'' s of
        Some r \<Rightarrow> (case skip_past ''?>'' r of None \<Rightarrow> False | Some r' \<Rightarrow> well_nested stk r')
      | None \<Rightarrow>
      (case strip_prefix ''!'' s of
        Some r \<Rightarrow> (case skip_past ''>'' r of None \<Rightarrow> False | Some r' \<Rightarrow> well_nested stk r')
      | None \<Rightarrow>
      (case strip_prefix ''/'' s of
        Some r \<Rightarrow>
          (case stk of
             [] \<Rightarrow> False
           | nm # outer \<Rightarrow>
               (case dropWhile space_byte (dropWhile name_byte r) of
                  [] \<Rightarrow> False
                | g # r' \<Rightarrow>
                    if takeWhile name_byte r = nm \<and> g = CHR ''>'' then well_nested outer r'
                    else False))
      | None \<Rightarrow>
          (case tag_end (dropWhile name_byte s) of
             None \<Rightarrow> False
           | Some (selfclose, r) \<Rightarrow>
               if takeWhile name_byte s = [] then False
               else well_nested (if selfclose then stk else takeWhile name_byte s # stk) r))))))"
  by pat_completeness auto

termination
proof -
  have sp: "length r \<le> length s" if "strip_prefix p s = Some r" for p s r
    using that by (auto simp: strip_prefix_def split: if_splits)
  have sk: "length r \<le> length s" if "skip_past t s = Some r" for t s r
    using that
  proof (induction s)
    case Nil
    then show ?case by simp
  next
    case (Cons c s)
    show ?case
    proof (cases "strip_prefix t (c # s)")
      case None
      with Cons show ?thesis by simp
    next
      case (Some r')
      with Cons.prems sp [of t "c # s" r] show ?thesis by simp
    qed
  qed
  have te: "length r \<le> length s" if "tag_end s = Some (f, r)" for s f r
    using that
  proof (induction s rule: tag_end.induct)
    case (1 s)
    show ?case
    proof (cases "dropWhile space_byte s")
      case Nil
      with "1.prems" show ?thesis by (simp add: tag_end.simps [of s])
    next
      case (Cons c r0)
      have l: "length (c # r0) \<le> length s" unfolding Cons [symmetric] by (rule length_dropWhile_le)
      consider "c = CHR ''>''" | "c \<noteq> CHR ''>''" "c = CHR ''/''"
        | "c \<noteq> CHR ''>''" "c \<noteq> CHR ''/''" by blast
      then show ?thesis
      proof cases
        case 1
        with Cons "1.prems" l show ?thesis by (simp add: tag_end.simps [of s])
      next
        case 2
        with Cons "1.prems" l show ?thesis
          by (auto simp: tag_end.simps [of s] split: list.splits if_splits)
      next
        case 3
        with Cons "1.prems" obtain rest where
          n: "dropWhile space_byte s \<noteq> s" and a: "attribute (c # r0) = Some rest" and
          t: "tag_end rest = Some (f, r)"
          by (auto simp: tag_end.simps [of s] split: option.splits if_splits)
        from a obtain e r1 q v q' where
          "dropWhile space_byte (dropWhile name_byte (c # r0)) = e # r1"
          "dropWhile space_byte r1 = q # v" "dropWhile (\<lambda>c. c \<noteq> q) v = q' # rest"
          by (auto simp: attribute_def split: list.splits if_splits)
        then have "length rest \<le> length (c # r0)"
          using length_dropWhile_le [of "\<lambda>c. c \<noteq> q" v] length_dropWhile_le [of space_byte r1]
            length_dropWhile_le [of space_byte "dropWhile name_byte (c # r0)"]
            length_dropWhile_le [of name_byte "c # r0"]
          by simp
        moreover from "1.IH" [OF Cons 3(1) 3(2) n a t] have "length r \<le> length rest" .
        ultimately show ?thesis using l by simp
      qed
    qed
  qed
  note dw = length_dropWhile_le
  show ?thesis
    apply (relation "measure (\<lambda>p. length (snd p))")
           apply simp
          apply simp
    subgoal for stk c s x2 f r
      using te [of "dropWhile name_byte s" f r] dw [of name_byte s] by simp
    subgoal for stk c s r nm outer g r'
      using sp [of "''/''" s r] dw [of space_byte "dropWhile name_byte r"] dw [of name_byte r]
      by simp
       apply (frule sp, frule sk, simp)
      apply (frule sp, frule sk, simp)
     apply (frule sp, frule sk, simp)
    apply (frule sp, frule sk, simp)
    done
qed

definition well_formed :: "char list \<Rightarrow> bool" where
  "well_formed s = well_nested [] s"

subsection \<open>Proof devices\<close>

text \<open>
  Closed forms of what parts of the builder do, each proved equal to the builder's own
  function below.
\<close>

definition child_mark :: "Builder \<Rightarrow> bool \<Rightarrow> Builder" where
  "child_mark b is_text =
     (if 0 \<le> depth b then
        b\<lparr>stack := (stack b)(nat (depth b) := (stack b (nat (depth b)))
              \<lparr>has_child := True,
               non_text_child := non_text_child (stack b (nat (depth b))) \<or> \<not> is_text\<rparr>),
          buf := (if has_child (stack b (nat (depth b))) then buf b
                  else add_bytes (buf b) ''>'')\<rparr>
      else b)"

definition child_marks :: "Builder \<Rightarrow> node list \<Rightarrow> Builder" where
  "child_marks b kids = fold (\<lambda>k b. child_mark b (text_node k)) kids b"

definition kept :: "Builder \<Rightarrow> Builder \<Rightarrow> bool" where
  \<comment> \<open>the second state has the depth, the settings and the open frames of the first\<close>
  "kept b b' =
     (depth b' = depth b \<and> indent b' = indent b \<and> fd (buf b') = fd (buf b) \<and>
      written (buf b') = written (buf b) \<and> file' b' = file' b \<and>
      (\<forall>k. int k \<le> depth b \<longrightarrow> stack b' k = stack b k))"

definition attr_bytes :: "VALUE \<times> VALUE \<Rightarrow> char list" where
  "attr_bytes kv =
     '' '' @ escape (name_bytes (fst kv)) @ ''='' @ [CHR 0x22] @ name_bytes (snd kv) @ [CHR 0x22]"

definition frame_name :: "Element \<Rightarrow> char list \<Rightarrow> bool" where
  \<comment> \<open>the frame's name can be read, and reads as \<open>nm\<close>\<close>
  "frame_name e nm =
     (read_bytes (name_memory e) (int_to_size_t (len e)) = Some nm \<and>
      int_to_size_t (len e) = length nm)"

definition fits :: "Builder \<Rightarrow> nat \<Rightarrow> bool" where
  \<comment> \<open>the preconditions of the document lemmas: room for \<open>h\<close> more frames, a sane indentation\<close>
  "fits b h =
     (- 1 \<le> depth b \<and> depth b + int h < MAX_DEPTH \<and> 0 \<le> indent b \<and> indent b < 2 ^ 24)"

definition indented :: "Builder \<Rightarrow> Builder" where
  \<comment> \<open>the state after \<open>append_indent\<close>\<close>
  "indented b =
     b\<lparr>buf := (buf b)\<lparr>pending := indentation (indent b) (depth b) (pending (buf b))\<rparr>\<rparr>"

definition in_range :: "Builder res \<Rightarrow> bool" where
  \<comment> \<open>the depth a call leaves: an index of the stack or - 1; \<open>MAX_DEPTH\<close> only after a raise\<close>
  "in_range r =
     (case r of
        Done b \<Rightarrow> - 1 \<le> depth b \<and> depth b < MAX_DEPTH
      | Raised e b \<Rightarrow> - 1 \<le> depth b \<and> depth b \<le> MAX_DEPTH)"

section \<open>Properties\<close>

subsection \<open>The classification table\<close>

lemma ones_row: "''11111111111111111111111111111111'' = replicate 32 CHR ''1''"
  by (simp add: numeral_eq_Suc)

lemma table_split: "xml_friendly_chars = table_low_rows @ replicate 192 CHR ''1'' @ [NUL]"
proof -
  have "replicate 192 CHR ''1'' = replicate 32 CHR ''1'' @ replicate 32 CHR ''1'' @ replicate 32 CHR ''1''
      @ replicate 32 CHR ''1'' @ replicate 32 CHR ''1'' @ replicate 32 CHR ''1''"
    by (simp only: replicate_add [symmetric]) simp
  then show ?thesis
    by (simp only: xml_friendly_chars_def table_low_rows_def ones_row append_assoc)
qed

lemma length_table_low_rows: "length table_low_rows = 64"
  by (simp add: table_low_rows_def)

lemma table_high: "64 \<le> n \<Longrightarrow> n < 256 \<Longrightarrow> xml_friendly_chars ! n = CHR ''1''"
  by (auto simp add: table_split nth_append length_table_low_rows)

lemma table_low:
  assumes "n < 64"
  shows "(xml_friendly_chars ! n = CHR ''1'') =
     (\<not> (n < 32 \<and> n \<noteq> 9 \<and> n \<noteq> 10 \<and> n \<noteq> 13) \<and> n \<noteq> 34 \<and> n \<noteq> 38 \<and> n \<noteq> 39 \<and> n \<noteq> 60 \<and> n \<noteq> 62)"
proof -
  have "xml_friendly_chars ! n = table_low_rows ! n"
    using assms by (simp add: table_split nth_append length_table_low_rows)
  moreover from assms have "n \<in> set [0..<64]" by simp
  then have "(table_low_rows ! n = CHR ''1'') =
     (\<not> (n < 32 \<and> n \<noteq> 9 \<and> n \<noteq> 10 \<and> n \<noteq> 13) \<and> n \<noteq> 34 \<and> n \<noteq> 38 \<and> n \<noteq> 39 \<and> n \<noteq> 60 \<and> n \<noteq> 62)"
    unfolding table_low_rows_def
    by (simp add: upt_rec del: upt.simps) (elim disjE; simp)
  ultimately show ?thesis by simp
qed

lemma table_codes_low:
  assumes "n < 64"
  shows "(49::nat) \<le> of_char (xml_friendly_chars ! n) \<and> (of_char (xml_friendly_chars ! n) :: nat) \<le> 58"
proof -
  have "xml_friendly_chars ! n = table_low_rows ! n"
    using assms by (simp add: table_split nth_append length_table_low_rows)
  moreover from assms have "n \<in> set [0..<64]" by simp
  then have "(49::nat) \<le> of_char (table_low_rows ! n) \<and> (of_char (table_low_rows ! n) :: nat) \<le> 58"
    unfolding table_low_rows_def
    by (simp add: upt_rec del: upt.simps) (elim disjE; simp)
  ultimately show ?thesis by simp
qed

lemma illegal_byte_nat:
  "illegal_byte c = ((of_char c :: nat) < 32 \<and> (of_char c :: nat) \<noteq> 9 \<and> (of_char c :: nat) \<noteq> 10 \<and> (of_char c :: nat) \<noteq> 13)"
proof -
  have "((of_char c :: nat) = of_char (CHR 0x09)) = (c = CHR 0x09)"
       "((of_char c :: nat) = of_char (CHR 0x0A)) = (c = CHR 0x0A)"
       "((of_char c :: nat) = of_char (CHR 0x0D)) = (c = CHR 0x0D)"
    by (rule of_char_eq_iff)+
  then show ?thesis by (simp add: illegal_byte_def)
qed


lemma special_byte_nat:
  "special_byte c = ((of_char c :: nat) = 34 \<or> (of_char c :: nat) = 38 \<or> (of_char c :: nat) = 39
      \<or> (of_char c :: nat) = 60 \<or> (of_char c :: nat) = 62)"
proof -
  have "((of_char c :: nat) = of_char (CHR 0x22)) = (c = CHR 0x22)"
       "((of_char c :: nat) = of_char (CHR ''&'')) = (c = CHR ''&'')"
       "((of_char c :: nat) = of_char (CHR 0x27)) = (c = CHR 0x27)"
       "((of_char c :: nat) = of_char (CHR ''<'')) = (c = CHR ''<'')"
       "((of_char c :: nat) = of_char (CHR ''>'')) = (c = CHR ''>'')"
    by (rule of_char_eq_iff)+
  then show ?thesis by (simp add: special_byte_def)
qed

lemma friendly_iff:
  "(xml_friendly_chars ! of_char c = CHR ''1'') = (\<not> illegal_byte c \<and> \<not> special_byte c)"
proof (cases "(of_char c :: nat) < 64")
  case True
  then show ?thesis
    by (simp add: table_low illegal_byte_nat special_byte_nat)
next
  case False
  moreover have "(of_char c :: nat) < 256" by simp
  ultimately show ?thesis
    by (simp add: table_high illegal_byte_nat special_byte_nat)
qed

lemma code_bounds:
  "(49::nat) \<le> of_char (xml_friendly_chars ! of_char c) \<and>
   (of_char (xml_friendly_chars ! of_char c) :: nat) \<le> 58"
proof (cases "(of_char c :: nat) < 64")
  case True
  then show ?thesis by (rule table_codes_low)
next
  case False
  moreover have "(of_char c :: nat) < 256" by simp
  ultimately show ?thesis by (simp add: table_high)
qed

lemma special_not_illegal: "special_byte c \<Longrightarrow> \<not> illegal_byte c"
  by (auto simp: special_byte_nat illegal_byte_nat)

lemma NUL_illegal: "illegal_byte NUL"
  by (simp add: illegal_byte_def NUL_def)

lemma xml_str_len_loop_sum:
  "sz + 58 * length str < 2 ^ 64 \<Longrightarrow>
   \<exists>sz'. xml_str_len_loop str (length str) sz = (sz', 0) \<and>
         sz + 49 * length str \<le> sz' \<and> sz' \<le> sz + 58 * length str"
proof (induction str arbitrary: sz)
  case Nil
  then show ?case by simp
next
  case (Cons c str)
  let ?k = "of_char (xml_friendly_chars ! of_char c) :: nat"
  have k: "49 \<le> ?k" "?k \<le> 58" using code_bounds [of c] by simp_all
  with Cons.prems have small: "sz + ?k < 2 ^ 64" by simp
  then have st: "size_t (sz + ?k) = sz + ?k" by (simp add: size_t_def)
  from Cons.prems k have "(sz + ?k) + 58 * length str < 2 ^ 64" by simp
  from Cons.IH [OF this] obtain sz' where
    "xml_str_len_loop str (length str) (sz + ?k) = (sz', 0)"
    "sz + ?k + 49 * length str \<le> sz'" "sz' \<le> sz + ?k + 58 * length str" by blast
  with k st show ?case by simp
qed

lemma xml_str_len_grows:
  assumes "str \<noteq> []" and "length str < 2 ^ 31"
  shows "xml_str_len str (length str) \<noteq> length str"
proof -
  have "0 + 58 * length str < (2::nat) ^ 64" using assms(2) by simp
  from xml_str_len_loop_sum [OF this] obtain sz' where
    l: "xml_str_len_loop str (length str) 0 = (sz', 0)" and
    lo: "49 * length str \<le> sz'" and hi: "sz' \<le> 58 * length str" by auto
  from hi assms(2) have "sz' < 2 ^ 64" by simp
  then have "xml_str_len str (length str) = sz'"
    by (simp add: xml_str_len_def l size_t_def)
  moreover from assms(1) have "0 < length str" by simp
  ultimately show ?thesis using lo by linarith
qed

lemma xml_str_len_Nil: "xml_str_len [] 0 = 0"
  by (simp add: xml_str_len_def size_t_def)


lemma add_bytes_Nil: "add_bytes b [] = b"
  by (simp add: add_bytes_def)

lemma add_bytes_add_bytes: "add_bytes (add_bytes b xs) ys = add_bytes b (xs @ ys)"
  by (simp add: add_bytes_def)

lemma buf_append_string_all: "buf_append_string b s (length s) = add_bytes b s"
  by (simp add: buf_append_string_def add_bytes_def)

lemma buf_append_string_eq: "n = length s \<Longrightarrow> buf_append_string b s n = add_bytes b s"
  by (simp add: buf_append_string_def add_bytes_def)

lemma flush_lbuf: "(if lbuf \<noteq> [] then buf_append_string b lbuf (length lbuf) else b) = add_bytes b lbuf"
  by (simp add: buf_append_string_all add_bytes_Nil)

lemma append_string_loop_eq:
  "int (length str) \<le> i \<Longrightarrow>
   append_string_loop b lbuf str i = slow_path (add_bytes b lbuf) str"
proof (induction str arbitrary: b lbuf i)
  case Nil
  then show ?case
    by (simp add: slow_path_def first_illegal_def legal_prefix_def escape_def flush_lbuf add_bytes_Nil)
next
  case (Cons c str)
  from Cons.prems have i: "0 < i" "int (length str) \<le> i - 1" by simp_all
  note IH = Cons.IH [OF i(2)]
  show ?case
  proof (cases "illegal_byte c")
    case True
    then have nf: "xml_friendly_chars ! of_char c \<noteq> CHR ''1''" by (simp add: friendly_iff)
    from True have ns: "\<not> special_byte c" using special_not_illegal by blast
    then have "c \<noteq> CHR 0x22" "c \<noteq> CHR ''&''" "c \<noteq> CHR 0x27" "c \<noteq> CHR ''<''" "c \<noteq> CHR ''>''"
      by (auto simp: special_byte_def)
    with True nf i show ?thesis
      by (cases "c = NUL")
        (simp_all add: slow_path_def first_illegal_def legal_prefix_def escape_def flush_lbuf add_bytes_Nil Let_def
          NUL_illegal)
  next
    case legal: False
    then have nn: "c \<noteq> NUL" using NUL_illegal by auto
    have ep: "escape (legal_prefix (c # str)) = entity c @ escape (legal_prefix str)"
      using legal by (simp add: legal_prefix_def escape_def)
    have dw: "first_illegal (c # str) = first_illegal str"
      using legal by (simp add: first_illegal_def)
    have ab: "add_bytes (add_bytes b lbuf) (entity c @ escape (legal_prefix str)) =
        add_bytes (add_bytes b (lbuf @ entity c)) (escape (legal_prefix str))"
      by (simp add: add_bytes_add_bytes)
    have step: "slow_path (add_bytes b lbuf) (c # str) = slow_path (add_bytes b (lbuf @ entity c)) str"
      unfolding slow_path_def ep dw ab by (rule refl)
    show ?thesis
    proof (cases "special_byte c")
      case False
      then have fr: "xml_friendly_chars ! of_char c = CHR ''1''" using legal by (simp add: friendly_iff)
      from False have ent: "entity c = [c]" by (auto simp: entity_def special_byte_def)
      show ?thesis using nn i fr
        by (simp add: IH step ent buf_append_string_all add_bytes_add_bytes)
    next
      case True
      then have nf: "xml_friendly_chars ! of_char c \<noteq> CHR ''1''" by (simp add: friendly_iff)
      have "append_string_loop b lbuf (c # str) i =
          append_string_loop (add_bytes (add_bytes b lbuf) (entity c)) [] str (i - 1)"
        using True nn i nf
        by (auto simp: special_byte_def entity_def flush_lbuf Let_def buf_append_string_eq)
      then show ?thesis
        by (simp add: IH step add_bytes_add_bytes add_bytes_Nil)
    qed
  qed
qed

lemma c_int_small: "n < 2 ^ 31 \<Longrightarrow> c_int (int n) = int n"
  by (simp add: c_int_def Let_def)

lemma append_string_eq:
  assumes "length str < 2 ^ 31"
  shows "append_string b str (length str) = slow_path b str"
proof (cases "str = []")
  case True
  then show ?thesis
    by (simp add: append_string_def xml_str_len_Nil slow_path_def first_illegal_def legal_prefix_def escape_def
        buf_append_string_def add_bytes_def)
next
  case False
  from False assms have "xml_str_len str (length str) \<noteq> length str" by (rule xml_str_len_grows)
  then have "append_string b str (length str) = append_string_loop b [] str (int (length str))"
    using assms by (simp add: append_string_def Let_def c_int_small)
  also have "\<dots> = slow_path (add_bytes b []) str" by (rule append_string_loop_eq) simp
  finally show ?thesis by (simp add: add_bytes_Nil)
qed

lemma unescape_entity: "unescape (entity c @ t) = c # unescape t"
  by (simp add: entity_def strip_prefix_def)

lemma unescape_escape: "unescape (escape s) = s"
  by (induction s) (simp_all add: escape_def unescape_entity)

lemma escape_plain: "\<forall>c\<in>set s. \<not> special_byte c \<Longrightarrow> escape s = s"
  by (induction s) (auto simp: escape_def entity_def special_byte_def)

lemma slow_path_legal:
  assumes "\<forall>c\<in>set str. \<not> illegal_byte c"
  shows "slow_path b str = Done (add_bytes b (escape str))"
proof -
  from assms have "first_illegal str = None"
    by (induction str) (simp_all add: first_illegal_def)
  moreover from assms have "legal_prefix str = str"
    by (simp add: legal_prefix_def)
  ultimately have "first_illegal str = None" and "legal_prefix str = str" .
  then show ?thesis unfolding slow_path_def by (simp only: option.case)
qed

subsection \<open>Escaped text\<close>

lemma raised_slow_path: "raised (slow_path b str) = escaping_error str"
  by (simp add: slow_path_def escaping_error_def raised_def split: option.splits)

lemma state_of_slow_path: "state_of (slow_path b str) = add_bytes b (escape (legal_prefix str))"
  by (simp add: slow_path_def state_of_def split: option.splits)

lemma raised_with_buf: "raised (with_buf b r) = raised r"
  by (cases r) (simp_all add: with_buf_def raised_def)

lemma buf_state_of_with_buf: "buf (state_of (with_buf b r)) = state_of r"
  by (cases r) (simp_all add: with_buf_def state_of_def)

lemma emitted_add_bytes: "emitted (add_bytes b bytes) = emitted b @ bytes"
  by (simp add: emitted_def add_bytes_def)

lemma i_am_a_child_Done:
  "depth b < MAX_DEPTH \<Longrightarrow> i_am_a_child b t = Done (state_of (i_am_a_child b t))"
  by (simp add: i_am_a_child_def state_of_def Let_def)

lemma builder_text_eq:
  assumes "depth b < MAX_DEPTH" and "length s < 2 ^ 31"
  shows "builder_text b (T_STRING s) =
    with_buf (state_of (i_am_a_child b True)) (slow_path (buf (state_of (i_am_a_child b True))) s)"
proof -
  from i_am_a_child_Done [OF assms(1), of True]
  obtain b0 where b0: "i_am_a_child b True = Done b0" ..
  then have "state_of (i_am_a_child b True) = b0" by (simp add: state_of_def)
  with b0 show ?thesis
    by (simp add: builder_text_def and_then_def StringValuePtr_def append_string_eq [OF assms(2)])
qed

lemma entity_legal: "\<not> illegal_byte c \<Longrightarrow> \<forall>x\<in>set (entity c). \<not> illegal_byte x"
  by (simp add: entity_def illegal_byte_def)

lemma escape_legal: "\<forall>c\<in>set s. \<not> illegal_byte c \<Longrightarrow> \<forall>x\<in>set (escape s). \<not> illegal_byte x"
  by (induction s) (auto simp: escape_def dest: entity_legal)

lemma legal_prefix_legal: "\<forall>c\<in>set (legal_prefix s). \<not> illegal_byte c"
  by (auto simp: legal_prefix_def dest: set_takeWhileD)

lemma first_illegal_None: "\<forall>c\<in>set str. \<not> illegal_byte c \<Longrightarrow> first_illegal str = None"
  by (induction str) (simp_all add: first_illegal_def)

lemma legal_prefix_all: "\<forall>c\<in>set str. \<not> illegal_byte c \<Longrightarrow> legal_prefix str = str"
  by (simp add: legal_prefix_def)

text \<open>
  C3. Text made of legal bytes is written with each of the five special bytes replaced by
  its named entity and every other byte verbatim; reversing the entities gives the text
  back; and text without any of the five bytes is written as it is. (The first pass of
  \<^verbatim>\<open>append_string\<close> takes the copying branch for the empty text only, but the second pass
  writes the same bytes.)
\<close>

theorem text_escaping_round_trip:
  assumes "\<forall>c\<in>set s. \<not> illegal_byte c" and "length s < 2 ^ 31" and "depth b < MAX_DEPTH"
  shows "raised (builder_text b (T_STRING s)) = None \<and>
         emitted (buf (state_of (builder_text b (T_STRING s)))) =
           emitted (buf (state_of (i_am_a_child b True))) @ escape s \<and>
         unescape (escape s) = s \<and>
         ((\<forall>c\<in>set s. \<not> special_byte c) \<longrightarrow>
            emitted (buf (state_of (builder_text b (T_STRING s)))) =
              emitted (buf (state_of (i_am_a_child b True))) @ s)"
proof -
  note eq = builder_text_eq [OF assms(3) assms(2)]
  have r: "raised (builder_text b (T_STRING s)) = None"
    by (simp add: eq raised_with_buf raised_slow_path escaping_error_def
        first_illegal_None [OF assms(1)])
  have e: "emitted (buf (state_of (builder_text b (T_STRING s)))) =
           emitted (buf (state_of (i_am_a_child b True))) @ escape s"
    by (simp add: eq buf_state_of_with_buf state_of_slow_path emitted_add_bytes
        legal_prefix_all [OF assms(1)])
  show ?thesis
    using r e by (simp add: unescape_escape escape_plain)
qed

theorem text_escaping_round_trip_witness:
  "list_all (\<lambda>c. \<not> illegal_byte c) ''a<b&c'' \<and> length ''a<b&c'' < (2::nat) ^ 31 \<and>
   depth (init blank 0 0 0) < MAX_DEPTH \<and>
   raised (builder_text (init blank 0 0 0) (T_STRING ''a<b&c'')) = None \<and>
   emitted (buf (state_of (builder_text (init blank 0 0 0) (T_STRING ''a<b&c'')))) = ''a&lt;b&amp;c'' \<and>
   unescape ''a&lt;b&amp;c'' = ''a<b&c''"
proof -
  have h1: "\<forall>c\<in>set ''a<b&c''. \<not> illegal_byte c" by (simp add: illegal_byte_def)
  have h2: "length ''a<b&c'' < (2::nat) ^ 31" by simp
  have h3: "depth (init blank 0 0 0) < MAX_DEPTH" by (simp add: init_def MAX_DEPTH_def)
  have e: "escape ''a<b&c'' = ''a&lt;b&amp;c''" by (simp add: escape_def entity_def)
  have s: "emitted (buf (state_of (i_am_a_child (init blank 0 0 0) True))) = []"
    by (simp add: i_am_a_child_def init_def state_of_def emitted_def buf_init_def)
  from text_escaping_round_trip [OF h1 h2 h3] h1 h2 h3 show ?thesis
    unfolding e s by (simp add: unescape_escape list_all_iff)
qed

text \<open>
  C4, as the code has it. An illegal byte other than NUL that comes first among the illegal
  bytes of the input makes the escaping path fail with InvalidCharacter, after the escaped
  bytes before it have been written. A NUL that comes first ends the input: the escaped
  bytes before it are written, it and what follows are not, and nothing is raised. No
  illegal byte is ever written.
\<close>

theorem illegal_byte_handling:
  assumes "length s < 2 ^ 31" and "depth b < MAX_DEPTH"
  shows "raised (builder_text b (T_STRING s)) = escaping_error s \<and>
         emitted (buf (state_of (builder_text b (T_STRING s)))) =
           emitted (buf (state_of (i_am_a_child b True))) @ escape (legal_prefix s) \<and>
         (\<forall>x\<in>set (escape (legal_prefix s)). \<not> illegal_byte x) \<and>
         raised (append_string bf s (length s)) = escaping_error s \<and>
         emitted (state_of (append_string bf s (length s))) = emitted bf @ escape (legal_prefix s)"
proof -
  note eq = builder_text_eq [OF assms(2) assms(1)]
  have "raised (builder_text b (T_STRING s)) = escaping_error s"
    by (simp add: eq raised_with_buf raised_slow_path)
  moreover have "emitted (buf (state_of (builder_text b (T_STRING s)))) =
           emitted (buf (state_of (i_am_a_child b True))) @ escape (legal_prefix s)"
    by (simp add: eq buf_state_of_with_buf state_of_slow_path emitted_add_bytes)
  moreover have "\<forall>x\<in>set (escape (legal_prefix s)). \<not> illegal_byte x"
    by (rule escape_legal) (rule legal_prefix_legal)
  moreover have "raised (append_string bf s (length s)) = escaping_error s"
    by (simp add: append_string_eq [OF assms(1)] raised_slow_path)
  moreover have "emitted (state_of (append_string bf s (length s))) = emitted bf @ escape (legal_prefix s)"
    by (simp add: append_string_eq [OF assms(1)] state_of_slow_path emitted_add_bytes)
  ultimately show ?thesis by blast
qed

theorem illegal_byte_handling_witness:
  "length [CHR ''a'', CHR ''<'', CHR 0x01, CHR ''b''] < (2::nat) ^ 31 \<and>
   depth (init blank 0 0 0) < MAX_DEPTH \<and>
   raised (builder_text (init blank 0 0 0) (T_STRING [CHR ''a'', CHR ''<'', CHR 0x01, CHR ''b''])) =
     Some (InvalidCharacter (CHR 0x01)) \<and>
   emitted (buf (state_of (builder_text (init blank 0 0 0)
     (T_STRING [CHR ''a'', CHR ''<'', CHR 0x01, CHR ''b''])))) = ''a&lt;''"
proof -
  let ?s = "[CHR ''a'', CHR ''<'', CHR 0x01, CHR ''b'']"
  have h1: "length ?s < (2::nat) ^ 31" by simp
  have h2: "depth (init blank 0 0 0) < MAX_DEPTH" by (simp add: init_def MAX_DEPTH_def)
  have f: "escaping_error ?s = Some (InvalidCharacter (CHR 0x01))"
    by (simp add: escaping_error_def first_illegal_def illegal_byte_def NUL_def)
  have e: "escape (legal_prefix ?s) = ''a&lt;''"
    by (simp add: legal_prefix_def illegal_byte_def escape_def entity_def)
  have s: "emitted (buf (state_of (i_am_a_child (init blank 0 0 0) True))) = []"
    by (simp add: i_am_a_child_def init_def state_of_def emitted_def buf_init_def)
  from illegal_byte_handling [OF h1 h2, of "buf blank"] h1 h2 show ?thesis
    unfolding f e s by simp
qed

theorem nul_byte_truncates_text:
  "raised (session blank 0 0 [Text (T_STRING [CHR ''a'', CHR 0x00, CHR ''b''])]) = None \<and>
   emitted (buf (state_of (session blank 0 0 [Text (T_STRING [CHR ''a'', CHR 0x00, CHR ''b''])]))) = ''a''"
proof -
  let ?s = "[CHR ''a'', CHR 0x00, CHR ''b'']"
  let ?b = "init (blank\<lparr>file' := None\<rparr>) 0 0 0"
  have h1: "length ?s < (2::nat) ^ 31" by simp
  have h2: "depth ?b < MAX_DEPTH" by (simp add: init_def MAX_DEPTH_def)
  have f: "escaping_error ?s = None"
    by (simp add: escaping_error_def first_illegal_def illegal_byte_def NUL_def)
  have e: "escape (legal_prefix ?s) = ''a''"
    by (simp add: legal_prefix_def illegal_byte_def escape_def entity_def)
  have s: "state_of (i_am_a_child ?b True) = ?b"
    by (simp add: i_am_a_child_def init_def state_of_def)
  have t: "builder_text ?b (T_STRING ?s) = with_buf ?b (slow_path (buf ?b) ?s)"
    using builder_text_eq [OF h2 h1] by (simp only: s)
  have r: "raised (builder_text ?b (T_STRING ?s)) = None"
    by (simp only: t raised_with_buf raised_slow_path f)
  then obtain b' where d: "builder_text ?b (T_STRING ?s) = Done b'"
    by (cases "builder_text ?b (T_STRING ?s)") (simp_all add: raised_def)
  have "emitted (buf (state_of (builder_text ?b (T_STRING ?s)))) = ''a''"
    by (simp only: t buf_state_of_with_buf state_of_slow_path emitted_add_bytes e)
      (simp add: init_def buf_init_def emitted_def)
  with d show ?thesis
    by (simp add: session_def builder_new_def raised_def state_of_def)
qed

subsection \<open>Evaluating calls\<close>

lemmas buf_ops = buf_init_def buf_append_def buf_append_string_def buf_finish_def buf_len_def
  b_append_def b_append_string_def emitted_def add_bytes_def

lemmas observers = raised_def state_of_def

lemma int_to_size_t_c_int: "n < 2 ^ 31 \<Longrightarrow> int_to_size_t (c_int (int n)) = n"
  by (simp add: c_int_small int_to_size_t_def)

lemma append_sym_str_string:
  "length s < 2 ^ 31 \<Longrightarrow> append_sym_str b (T_STRING s) = slow_path b s"
  by (simp add: append_sym_str_def int_to_size_t_c_int append_string_eq)

lemma takeWhile_no_NUL: "NUL \<notin> set s \<Longrightarrow> takeWhile (\<lambda>c. c \<noteq> NUL) s = s"
  by (induction s) auto

lemma strlen_no_NUL: "NUL \<notin> set s \<Longrightarrow> strlen s = length s"
  by (simp add: strlen_def takeWhile_no_NUL)

lemma append_sym_str_symbol:
  "length s < 2 ^ 31 \<Longrightarrow> NUL \<notin> set s \<Longrightarrow> append_sym_str b (T_SYMBOL s) = slow_path b s"
  by (simp add: append_sym_str_def strlen_no_NUL int_to_size_t_c_int append_string_eq)

lemma session_eq: "session b ind sz calls = run calls (init (b\<lparr>file' := None\<rparr>) 0 ind sz)"
  by (simp add: session_def builder_new_def)

text \<open>
  C6. A comment on a fresh builder is written as \<^verbatim>\<open><!-- \<close>, the payload as it is, and the
  five bytes \<^verbatim>\<open> --/>\<close>: the terminator the builder writes is not the \<^verbatim>\<open> -->\<close> of XML.
\<close>

theorem comment_terminator:
  "raised (session b ind sz [Comment (T_STRING s)]) = None \<and>
   emitted (buf (state_of (session b ind sz [Comment (T_STRING s)]))) = ''<!-- '' @ s @ '' --/>'' \<and>
   emitted (buf (state_of (session b ind sz [Comment (T_STRING s)]))) \<noteq> ''<!-- '' @ s @ '' -->''"
  by (simp add: session_eq init_def builder_comment_def i_am_a_child_def append_indent_def
      and_then_def append_value_def StringValuePtr_def buf_ops observers)

text \<open>
  C5. An attribute is written as a space, the escaped key, \<^verbatim>\<open>="\<close>, the value and \<^verbatim>\<open>"\<close>; the
  value is written byte for byte, whatever it holds: it is neither escaped nor checked.
\<close>

theorem attribute_value_not_escaped:
  "raised (session b ind sz
     [Element (Some (T_STRING ''a'')) (Some [(T_STRING ''k'', T_STRING v)]) None, Pop]) = None \<and>
   emitted (buf (state_of (session b ind sz
     [Element (Some (T_STRING ''a'')) (Some [(T_STRING ''k'', T_STRING v)]) None, Pop]))) =
     ''<a k='' @ [CHR 0x22] @ v @ [CHR 0x22] @ ''/>''"
proof -
  have k: "append_sym_str bf (T_STRING ''k'') = Done (add_bytes bf ''k'')" for bf
    by (simp add: append_sym_str_string slow_path_legal illegal_byte_def escape_def entity_def)
  show ?thesis
    by (simp add: session_eq init_def builder_element_def i_am_a_child_def append_indent_def
        and_then_def MAX_DEPTH_def c_int_def int_to_size_t_def set_name_def append_name_def
        read_bytes_def name_memory_def append_attr_def with_buf_def k builder_pop_def pop_def
        NUL_def buf_ops observers Let_def)
qed

text \<open>
  C8. With an indentation of 2, opening \<^verbatim>\<open>outer\<close>, opening and popping \<^verbatim>\<open>inner\<close>, popping
  \<^verbatim>\<open>outer\<close> and closing the document writes exactly
  \<^verbatim>\<open><outer>\n  <inner/>\n</outer>\n\<close>.
\<close>

theorem indentation_example:
  "raised (session b 2 sz
     [Element (Some (T_STRING ''outer'')) None None, Element (Some (T_STRING ''inner'')) None None,
      Pop, Pop, Close]) = None \<and>
   emitted (buf (state_of (session b 2 sz
     [Element (Some (T_STRING ''outer'')) None None, Element (Some (T_STRING ''inner'')) None None,
      Pop, Pop, Close]))) =
     ''<outer>'' @ [CHR 0x0A] @ ''  <inner/>'' @ [CHR 0x0A] @ ''</outer>'' @ [CHR 0x0A]"
  by (simp add: session_eq init_def builder_element_def i_am_a_child_def append_indent_def
      and_then_def MAX_DEPTH_def c_int_def int_to_size_t_def set_name_def append_name_def
      read_bytes_def name_memory_def builder_pop_def pop_def builder_close_def bclose_def
      fclose_def indent_spaces_def NUL_def numeral_2_eq_2 buf_ops observers Let_def)

text \<open>
  C9. A second \<^verbatim>\<open>close\<close> is not idle. On a builder that writes to a file it appends a
  second newline and calls \<^verbatim>\<open>fclose\<close> on the stream the first call has closed; on a
  builder in memory it appends a second newline.
\<close>

theorem close_twice:
  "raised (and_then (builder_file b (Some 3) ind sz None) (run [Close, Close])) = Some DoubleClose \<and>
   emitted (buf (state_of (and_then (builder_file b (Some 3) ind sz None) (run [Close, Close])))) =
     [CHR 0x0A, CHR 0x0A] \<and>
   raised (session b ind sz [Element (Some (T_STRING ''a'')) None None, Close, Close]) = None \<and>
   emitted (buf (state_of (session b ind sz [Element (Some (T_STRING ''a'')) None None, Close, Close]))) =
     ''<a/>'' @ [CHR 0x0A, CHR 0x0A]"
  by (simp add: session_eq builder_file_def init_def builder_element_def i_am_a_child_def
      append_indent_def and_then_def MAX_DEPTH_def c_int_def int_to_size_t_def set_name_def
      append_name_def read_bytes_def name_memory_def pop_def builder_close_def bclose_def
      fclose_def NUL_def buf_ops observers Let_def)

text \<open>
  C10. \<^verbatim>\<open>to_s\<close> reads the byte before \<^verbatim>\<open>tail\<close> to decide whether to append a newline. On
  a fresh builder in memory nothing has been written and the read is out of bounds. Once a
  byte has been written the read is within the buffer, \<^verbatim>\<open>to_s\<close> returns the bytes with a
  newline at their end, appended only when the last byte is not one, and calling it again
  changes nothing and returns the same string.
\<close>

theorem to_s_reads_before_tail:
  "to_s (init b0 0 ind sz) = Raised OutOfBoundsRead (init b0 0 ind sz) \<and>
   (fd (buf b) = 0 \<and> pending (buf b) \<noteq> [] \<longrightarrow>
     (\<exists>r b'. to_s b = Done (r, b') \<and>
        fst r = (if last (pending (buf b)) = CHR 0x0A then pending (buf b)
                 else pending (buf b) @ [CHR 0x0A]) \<and>
        (last (pending (buf b)) = CHR 0x0A \<longrightarrow> b' = b) \<and>
        to_s b' = Done (r, b')))"
  by (simp add: to_s_def init_def buf_ops Let_def)

theorem to_s_reads_before_tail_witness:
  "to_s (init blank 0 0 0) = Raised OutOfBoundsRead (init blank 0 0 0) \<and>
   fd (buf (state_of (session blank 0 0 [Element (Some (T_STRING ''a'')) None None, Pop]))) = 0 \<and>
   pending (buf (state_of (session blank 0 0 [Element (Some (T_STRING ''a'')) None None, Pop]))) = ''<a/>'' \<and>
   (\<exists>r b'. to_s (state_of (session blank 0 0 [Element (Some (T_STRING ''a'')) None None, Pop])) = Done (r, b') \<and>
      fst r = ''<a/>'' @ [CHR 0x0A] \<and> to_s b' = Done (r, b'))"
proof -
  let ?B = "state_of (session blank 0 0 [Element (Some (T_STRING ''a'')) None None, Pop])"
  have p: "pending (buf ?B) = ''<a/>''" and f: "fd (buf ?B) = 0"
    by (simp_all add: session_eq init_def builder_element_def i_am_a_child_def
      append_indent_def and_then_def MAX_DEPTH_def c_int_def int_to_size_t_def set_name_def
      append_name_def read_bytes_def name_memory_def builder_pop_def pop_def
      NUL_def buf_ops observers Let_def blank_def)
  from to_s_reads_before_tail [of blank 0 0 ?B] p f show ?thesis by simp
qed

subsection \<open>The parts of a call in closed form\<close>

lemma has_child_again: "has_child e \<Longrightarrow> e\<lparr>has_child := True\<rparr> = e"
  by (cases e) simp

lemma i_am_a_child_eq: "depth b < MAX_DEPTH \<Longrightarrow> i_am_a_child b t = Done (child_mark b t)"
  by (cases t) (simp_all add: i_am_a_child_def child_mark_def Let_def buf_ops has_child_again)

lemma child_mark_fields [simp]:
  "depth (child_mark b t) = depth b"
  "indent (child_mark b t) = indent b"
  "file' (child_mark b t) = file' b"
  "fd (buf (child_mark b t)) = fd (buf b)"
  "written (buf (child_mark b t)) = written (buf b)"
  by (simp_all add: child_mark_def add_bytes_def)

lemma pending_child_mark:
  "pending (buf (child_mark b t)) =
     pending (buf b) @ (if 0 \<le> depth b \<and> \<not> has_child (stack b (nat (depth b))) then ''>'' else [])"
  by (simp add: child_mark_def add_bytes_def)

lemma stack_child_mark_below:
  "int k < depth b \<Longrightarrow> stack (child_mark b t) k = stack b k"
  by (auto simp: child_mark_def)

lemma stack_child_mark_top:
  "0 \<le> depth b \<Longrightarrow> stack (child_mark b t) (nat (depth b)) =
     (stack b (nat (depth b)))\<lparr>has_child := True,
        non_text_child := non_text_child (stack b (nat (depth b))) \<or> \<not> t\<rparr>"
  by (simp add: child_mark_def)

lemma take_indent_spaces:
  "n \<le> 129 \<Longrightarrow> 0 < n \<Longrightarrow> take n indent_spaces = CHR 0x0A # replicate (n - 1) CHR '' ''"
  by (cases n) (simp_all add: indent_spaces_def min_def)

lemma length_indent_spaces: "length indent_spaces = 130"
  by (simp add: indent_spaces_def)

lemma append_indent_eq:
  assumes "fits b 0"
  shows "append_indent b =
    b\<lparr>buf := (buf b)\<lparr>pending := indentation (indent b) (depth b) (pending (buf b))\<rparr>\<rparr>"
proof (cases "indent b = 0 \<or> pending (buf b) = []")
  case True
  then show ?thesis by (auto simp: append_indent_def indentation_def)
next
  case False
  from assms have d: "0 \<le> depth b + 1" "depth b + 1 \<le> 128" and i: "0 \<le> indent b" "indent b < 2 ^ 24"
    by (simp_all add: fits_def MAX_DEPTH_def)
  let ?p = "indent b * (depth b + 1)"
  have p0: "0 \<le> ?p" using d i by simp
  have "?p \<le> indent b * 128" using d i by (intro mult_left_mono) simp_all
  with i have p1: "?p < 2 ^ 31 - 1" by simp
  have c: "c_int (?p + 1) = ?p + 1" using p0 p1 by (simp add: c_int_def Let_def)
  have s: "int_to_size_t (?p + 1) = nat ?p + 1" using p0 p1 by (simp add: int_to_size_t_def nat_add_distrib)
  show ?thesis
  proof (cases "129 \<le> nat ?p")
    case True
    with p0 have "int_to_size_t (int (length indent_spaces) - 1) = 129"
      by (simp add: length_indent_spaces int_to_size_t_def)
    with True False show ?thesis
      by (simp add: append_indent_def indentation_def c s Let_def length_indent_spaces
          b_append_string_def buf_append_string_def take_indent_spaces min_def)
  next
    case le: False
    then have "take (nat ?p + 1) indent_spaces = CHR 0x0A # replicate (nat ?p) CHR '' ''"
      by (simp add: take_indent_spaces)
    with le False show ?thesis
      by (simp add: append_indent_def indentation_def c s Let_def length_indent_spaces
          b_append_string_def buf_append_string_def min_def)
  qed
qed

lemma legal_no_NUL: "list_all (\<lambda>c. \<not> illegal_byte c) s \<Longrightarrow> NUL \<notin> set s"
  using NUL_illegal by (auto simp: list_all_iff)

lemma append_sym_str_escapable:
  assumes "escapable k"
  shows "append_sym_str bf k = Done (add_bytes bf (escape (name_bytes k)))"
proof (cases k)
  case (T_STRING s)
  with assms show ?thesis
    by (simp add: escapable_def name_bytes_def append_sym_str_string slow_path_legal list_all_iff)
next
  case (T_SYMBOL s)
  with assms have "NUL \<notin> set s" by (simp add: escapable_def name_bytes_def legal_no_NUL)
  with T_SYMBOL assms show ?thesis
    by (simp add: escapable_def name_bytes_def append_sym_str_symbol slow_path_legal list_all_iff)
next
  case T_OTHER
  with assms show ?thesis by (simp add: escapable_def)
qed

lemma append_attr_eq:
  assumes "escapable k" and "is_string v"
  shows "append_attr k v b = Done (b\<lparr>buf := add_bytes (buf b) (attr_bytes (k, v))\<rparr>)"
proof -
  from assms(2) obtain s where v: "v = T_STRING s" by (cases v) (simp_all add: is_string_def)
  show ?thesis
    by (simp add: append_attr_def append_sym_str_escapable [OF assms(1)] with_buf_def and_then_def
        v attr_bytes_def name_bytes_def Let_def buf_ops)
qed

lemma rb_hash_foreach_eq:
  "list_all (\<lambda>kv. escapable (fst kv) \<and> is_string (snd kv)) hash \<Longrightarrow>
   rb_hash_foreach hash b = Done (b\<lparr>buf := add_bytes (buf b) (concat (map attr_bytes hash))\<rparr>)"
proof (induction hash arbitrary: b)
  case Nil
  then show ?case by (simp add: add_bytes_def)
next
  case (Cons kv hash)
  obtain k v where kv: "kv = (k, v)" by (cases kv)
  with Cons.prems have "escapable k" "is_string v"
    and rest: "list_all (\<lambda>kv. escapable (fst kv) \<and> is_string (snd kv)) hash" by simp_all
  then show ?case
    by (simp add: kv append_attr_eq and_then_def Cons.IH [OF rest] add_bytes_def)
qed

lemma probe_empty [simp]:
  "emitted (buf (init blank 0 0 0)) = []" "pending (buf (init blank 0 0 0)) = []"
  "written (buf (init blank 0 0 0)) = []"
  "depth (init blank 0 0 0) = - 1" "indent (init blank 0 0 0) = 0"
  by (simp_all add: init_def buf_ops)

lemma attrs_markup_Some:
  "list_all (\<lambda>kv. escapable (fst kv) \<and> is_string (snd kv)) hash \<Longrightarrow>
   attrs_markup (Some hash) = concat (map attr_bytes hash)"
  by (simp add: attrs_markup_def rb_hash_foreach_eq state_of_def emitted_def add_bytes_def)

lemma attrs_eq:
  "attrs_ok attrs \<Longrightarrow>
   (case attrs of None \<Rightarrow> Done b | Some hash \<Rightarrow> rb_hash_foreach hash b) =
     Done (b\<lparr>buf := add_bytes (buf b) (attrs_markup attrs)\<rparr>)"
  by (cases attrs)
    (simp_all add: attrs_ok_def rb_hash_foreach_eq attrs_markup_Some, simp add: attrs_markup_def add_bytes_def)

lemma name_value:
  assumes "name_ok nm"
  shows "(case nm of
            T_STRING s \<Rightarrow> Some (s, c_int (int (length s)))
          | T_SYMBOL s \<Rightarrow> Some (s, c_int (int (strlen s)))
          | T_OTHER \<Rightarrow> None) = Some (name_bytes nm, int (length (name_bytes nm)))"
  using assms by (cases nm) (simp_all add: name_ok_def name_bytes_def c_int_small strlen_no_NUL)

lemma int_to_size_t_length: "int_to_size_t (int n) = n mod 2 ^ 64"
  by (simp add: int_to_size_t_def nat_mod_distrib nat_power_eq)

lemma int_to_size_t_small: "n < 2 ^ 31 \<Longrightarrow> int_to_size_t (int n) = n"
  by (simp add: int_to_size_t_length)

lemma frame_name_set_name:
  assumes "NUL \<notin> set s" and "length s < 2 ^ 31"
  shows "frame_name ((set_name e0 s (int (length s)))
           \<lparr>len := int (length s), has_child := h, non_text_child := n\<rparr>) s"
  using assms
  by (simp add: frame_name_def set_name_def Let_def name_memory_def read_bytes_def
      int_to_size_t_small takeWhile_no_NUL)

lemma append_name_eq:
  "frame_name e nm \<Longrightarrow> append_name b e = Done (b\<lparr>buf := add_bytes (buf b) nm\<rparr>)"
  by (auto simp: frame_name_def append_name_def read_bytes_def buf_ops split: if_splits)

lemma fits_child_mark [simp]: "fits (child_mark b t) h = fits b h"
  by (simp add: fits_def)

lemma fits_less: "fits b h \<Longrightarrow> h' \<le> h \<Longrightarrow> fits b h'"
  by (simp add: fits_def)

lemma fits_depth: "fits b h \<Longrightarrow> depth b < MAX_DEPTH"
  by (simp add: fits_def)

lemma builder_element_eq:
  assumes "name_ok nm" and "attrs_ok attrs" and "fits b 1"
  shows "\<exists>b1. builder_element b (Some nm) attrs blk =
           (case blk of None \<Rightarrow> Done b1 | Some yield \<Rightarrow> and_then (yield b1) pop) \<and>
         depth b1 = depth b + 1 \<and> indent b1 = indent b \<and> fd (buf b1) = fd (buf b) \<and>
         written (buf b1) = written (buf b) \<and> file' b1 = file' b \<and>
         pending (buf b1) =
           indentation (indent b) (depth b) (pending (buf (child_mark b False))) @
           ''<'' @ name_bytes nm @ attrs_markup attrs \<and>
         (\<forall>k. int k \<le> depth b \<longrightarrow> stack b1 k = stack (child_mark b False) k) \<and>
         frame_name (stack b1 (nat (depth b + 1))) (name_bytes nm) \<and>
         \<not> has_child (stack b1 (nat (depth b + 1))) \<and>
         \<not> non_text_child (stack b1 (nat (depth b + 1)))"
proof -
  let ?bm = "child_mark b False"
  let ?s = "name_bytes nm"
  let ?d = "nat (depth b + 1)"
  from assms(3) have dep: "- 1 \<le> depth b" "depth b + 1 < MAX_DEPTH"
    by (simp_all add: fits_def)
  have m: "i_am_a_child b False = Done ?bm"
    using dep by (intro i_am_a_child_eq) simp
  have "fits ?bm 0" using assms(3) by (simp add: fits_less)
  note ind = append_indent_eq [OF this]
  define bd where "bd = (append_indent ?bm)\<lparr>depth := depth b + 1\<rparr>"
  define e where "e = (set_name (stack bd ?d) ?s (int (length ?s)))
      \<lparr>len := int (length ?s), has_child := False, non_text_child := False\<rparr>"
  define b0 where "b0 = b_append (bd\<lparr>stack := (stack bd)(?d := e)\<rparr>) CHR ''<''"
  define b1 where "b1 = b0\<lparr>buf := add_bytes (add_bytes (buf b0) ?s) (attrs_markup attrs)\<rparr>"
  from assms(1) have nm: "NUL \<notin> set ?s" "length ?s < 2 ^ 31" by (simp_all add: name_ok_def)
  have fn: "frame_name e ?s" unfolding e_def using nm by (rule frame_name_set_name)
  have dbd: "depth bd = depth b + 1" by (simp add: bd_def)
  have an: "append_name bx ((set_name e0 ?s (int (length ?s)))
           \<lparr>len := int (length ?s), has_child := h, non_text_child := n\<rparr>) =
         Done (bx\<lparr>buf := add_bytes (buf bx) ?s\<rparr>)" for bx e0 h n
    using nm by (intro append_name_eq frame_name_set_name)
  have run: "builder_element b (Some nm) attrs blk =
           (case blk of None \<Rightarrow> Done b1 | Some yield \<Rightarrow> and_then (yield b1) pop)"
    unfolding b1_def b0_def e_def bd_def
    using dep
    by (cases blk)
      (simp_all add: builder_element_def m and_then_def Let_def name_value [OF assms(1)]
        ind an attrs_eq [OF assms(2)] b_append_def)
  have st: "stack b1 = (stack ?bm)(?d := e)"
    by (simp add: b1_def b0_def bd_def ind b_append_def)
  have "pending (buf b1) =
           indentation (indent b) (depth b) (pending (buf ?bm)) @ ''<'' @ ?s @ attrs_markup attrs"
    by (simp add: b1_def b0_def bd_def ind buf_ops)
  moreover have "\<forall>k. int k \<le> depth b \<longrightarrow> stack b1 k = stack ?bm k"
    using dep by (auto simp: st)
  moreover have "depth b1 = depth b + 1" "indent b1 = indent b" "fd (buf b1) = fd (buf b)"
    "written (buf b1) = written (buf b)" "file' b1 = file' b"
    by (simp_all add: b1_def b0_def bd_def ind buf_ops)
  moreover have "stack b1 ?d = e" by (simp add: st)
  moreover have "\<not> has_child e" "\<not> non_text_child e" by (simp_all add: e_def)
  ultimately show ?thesis using run fn by auto
qed

lemma pop_eq:
  assumes "0 \<le> depth b" and "fits b 0" and "frame_name (stack b (nat (depth b))) nm"
  shows "\<exists>b'. pop b = Done b' \<and>
         depth b' = depth b - 1 \<and> indent b' = indent b \<and> fd (buf b') = fd (buf b) \<and>
         written (buf b') = written (buf b) \<and> file' b' = file' b \<and>
         pending (buf b') =
           (if has_child (stack b (nat (depth b))) then
              (if non_text_child (stack b (nat (depth b)))
               then indentation (indent b) (depth b - 1) (pending (buf b))
               else pending (buf b)) @ ''</'' @ nm @ ''>''
            else pending (buf b) @ ''/>'') \<and>
         (\<forall>k. int k < depth b \<longrightarrow> stack b' k = stack b k)"
proof -
  let ?e = "stack b (nat (depth b))"
  let ?bd = "b\<lparr>depth := depth b - 1\<rparr>"
  from assms have dep: "depth b < MAX_DEPTH" by (simp add: fits_def)
  from assms have "fits ?bd 0" by (simp add: fits_def)
  note ind = append_indent_eq [OF this]
  have fn: "append_name bx ?e = Done (bx\<lparr>buf := add_bytes (buf bx) nm\<rparr>)" for bx
    using assms(3) by (rule append_name_eq)
  show ?thesis
  proof (cases "has_child ?e")
    case False
    with assms(1) dep show ?thesis
      by (simp add: pop_def Let_def buf_ops)
  next
    case True
    with assms(1) dep show ?thesis
      by (cases "non_text_child ?e"; cases "name ?e = InlineBuf")
        (simp_all add: pop_def Let_def fn ind and_then_def buf_ops)
  qed
qed

subsection \<open>Sequences of calls\<close>

lemma and_then_Done [simp]: "and_then (Done s) f = f s"
  by (simp add: and_then_def)

lemma and_then_Raised [simp]: "and_then (Raised e s) f = Raised e s"
  by (simp add: and_then_def)

lemma run_Cons: "run (c # cs) b = and_then (exec c b) (run cs)"
  by (simp add: and_then_def)

lemma run_single: "run [c] b = exec c b"
  by (cases "exec c b") simp_all

lemma run_append: "run (xs @ ys) b = and_then (run xs b) (run ys)"
proof (induction xs arbitrary: b)
  case Nil
  then show ?case by simp
next
  case (Cons c xs)
  then show ?case by (cases "exec c b") simp_all
qed

lemma raised_Done [simp]: "raised (Done x) = None"
  by (simp add: raised_def)

lemma raised_Raised [simp]: "raised (Raised e s) = Some e"
  by (simp add: raised_def)

lemma state_of_Done [simp]: "state_of (Done s) = s"
  by (simp add: state_of_def)

lemma state_of_Raised [simp]: "state_of (Raised e s) = s"
  by (simp add: state_of_def)

lemma raised_None_iff: "raised r = None \<longleftrightarrow> (\<exists>x. r = Done x)"
  by (cases r) simp_all

subsection \<open>The depth limit\<close>

lemma nested_opens:
  assumes "depth b = - 1" and "0 \<le> indent b" and "indent b < 2 ^ 24" and "name_ok nm"
  shows "n \<le> 128 \<Longrightarrow>
    \<exists>b'. run (replicate n (Element (Some nm) None None)) b = Done b' \<and>
         depth b' = int n - 1 \<and> indent b' = indent b \<and>
         (0 < n \<longrightarrow> \<not> has_child (stack b' (n - 1)))"
proof (induction n)
  case 0
  with assms show ?case by simp
next
  case (Suc n)
  then obtain b1 where b1: "run (replicate n (Element (Some nm) None None)) b = Done b1"
    "depth b1 = int n - 1" "indent b1 = indent b" by auto
  with Suc.prems assms have "fits b1 1" by (simp add: fits_def MAX_DEPTH_def)
  from builder_element_eq [OF assms(4) _ this, of None None]
  obtain b2 where "builder_element b1 (Some nm) None None = Done b2"
    "depth b2 = depth b1 + 1" "indent b2 = indent b1"
    "\<not> has_child (stack b2 (nat (depth b1 + 1)))"
    by (auto simp: attrs_ok_def)
  moreover have "replicate (Suc n) (Element (Some nm) None None) =
      replicate n (Element (Some nm) None None) @ [Element (Some nm) None None]"
    by (simp add: replicate_append_same)
  ultimately show ?case
    using b1 by (simp add: run_append run_single del: replicate.simps)
qed

lemma builder_element_too_deep:
  assumes "depth b + 1 = MAX_DEPTH"
  shows "builder_element b (Some v) attrs blk =
    Raised TooDeeplyNested ((append_indent (child_mark b False))\<lparr>depth := MAX_DEPTH\<rparr>)"
proof -
  from assms have "depth b < MAX_DEPTH" by simp
  then have m: "i_am_a_child b False = Done (child_mark b False)" by (rule i_am_a_child_eq)
  have d: "depth (append_indent bx) = depth bx" for bx
    by (simp add: append_indent_def Let_def b_append_string_def)
  show ?thesis using assms
    by (simp add: builder_element_def m Let_def d)
qed

text \<open>
  C7, as the code has it. On a fresh builder 128 nested elements can be opened. The call
  that would open a 129th raises TooDeeplyNested, but only after it has marked the 128th
  frame as having a child, written the \<^verbatim>\<open>>\<close> that ends its opening tag and incremented
  \<^verbatim>\<open>depth\<close>: the depth is 128 afterwards, an index outside the stack, and a \<^verbatim>\<open>pop\<close> that
  follows reads past the array.
\<close>

theorem too_deeply_nested:
  "raised (session b 0 sz (replicate 128 (Element (Some (T_STRING ''a'')) None None))) = None \<and>
   depth (state_of (session b 0 sz (replicate 128 (Element (Some (T_STRING ''a'')) None None)))) = 127 \<and>
   \<not> has_child (stack (state_of (session b 0 sz
        (replicate 128 (Element (Some (T_STRING ''a'')) None None)))) 127) \<and>
   raised (session b 0 sz (replicate 129 (Element (Some (T_STRING ''a'')) None None))) =
     Some TooDeeplyNested \<and>
   depth (state_of (session b 0 sz (replicate 129 (Element (Some (T_STRING ''a'')) None None)))) = 128 \<and>
   has_child (stack (state_of (session b 0 sz
        (replicate 129 (Element (Some (T_STRING ''a'')) None None)))) 127) \<and>
   emitted (buf (state_of (session b 0 sz (replicate 129 (Element (Some (T_STRING ''a'')) None None))))) =
     emitted (buf (state_of (session b 0 sz
        (replicate 128 (Element (Some (T_STRING ''a'')) None None))))) @ ''>'' \<and>
   raised (exec Pop (state_of (session b 0 sz
        (replicate 129 (Element (Some (T_STRING ''a'')) None None))))) = Some OutOfBoundsRead"
proof -
  let ?E = "Element (Some (T_STRING ''a'')) None None"
  let ?b0 = "init (b\<lparr>file' := None\<rparr>) 0 0 sz"
  have nm: "name_ok (T_STRING ''a'')" by (simp add: name_ok_def name_bytes_def NUL_def)
  have "depth ?b0 = - 1" "0 \<le> indent ?b0" "indent ?b0 < 2 ^ 24" by (simp_all add: init_def)
  from nested_opens [OF this nm, of 128]
  obtain b1 where b1: "run (replicate 128 ?E) ?b0 = Done b1" "depth b1 = 127" "indent b1 = 0"
    "\<not> has_child (stack b1 127)" by (auto simp: init_def)
  then have "depth b1 + 1 = MAX_DEPTH" by (simp add: MAX_DEPTH_def)
  note deep = builder_element_too_deep [OF this, of "T_STRING ''a''" None None]
  let ?b2 = "(append_indent (child_mark b1 False))\<lparr>depth := MAX_DEPTH\<rparr>"
  have r129: "run (replicate 129 ?E) ?b0 = Raised TooDeeplyNested ?b2"
  proof -
    have "replicate 129 ?E = replicate (Suc 128) ?E"
      by (rule arg_cong [where f = "\<lambda>n. replicate n ?E"]) simp
    also have "\<dots> = replicate 128 ?E @ [?E]"
      by (simp only: replicate_append_same replicate.simps)
    finally have "replicate 129 ?E = replicate 128 ?E @ [?E]" .
    then show ?thesis by (simp only: run_append b1 run_single and_then_Done exec.simps deep)
  qed
  have ai: "append_indent (child_mark b1 False) = child_mark b1 False"
    using b1 by (simp add: append_indent_def)
  have "emitted (buf ?b2) = emitted (buf b1) @ ''>''"
    using b1 by (simp add: ai emitted_def pending_child_mark)
  moreover have "has_child (stack ?b2 127)"
    using b1 stack_child_mark_top [of b1 False] by (simp add: ai)
  moreover have "raised (exec Pop ?b2) = Some OutOfBoundsRead"
    by (simp add: builder_pop_def pop_def MAX_DEPTH_def)
  moreover have "depth ?b2 = 128" by (simp add: MAX_DEPTH_def)
  ultimately show ?thesis
    using b1 by (simp add: session_eq r129 del: replicate.simps)
qed

subsection \<open>Single calls\<close>

lemma kept_refl [simp]: "kept b b"
  by (simp add: kept_def)

lemma kept_trans: "kept a b \<Longrightarrow> kept b c \<Longrightarrow> kept a c"
  by (simp add: kept_def)

lemma kept_buf [simp]: "fd bf = fd (buf b) \<Longrightarrow> written bf = written (buf b) \<Longrightarrow> kept b (b\<lparr>buf := bf\<rparr>)"
  by (simp add: kept_def)

lemma kept_buf_encoding [simp]:
  "fd bf = fd (buf b) \<Longrightarrow> written bf = written (buf b) \<Longrightarrow> kept b (b\<lparr>buf := bf, encoding := enc\<rparr>)"
  by (simp add: kept_def)

lemma append_indent_indented: "fits b 0 \<Longrightarrow> append_indent b = indented b"
  by (simp add: append_indent_eq indented_def)

lemma indented_fields [simp]:
  "depth (indented b) = depth b" "indent (indented b) = indent b" "file' (indented b) = file' b"
  "fd (buf (indented b)) = fd (buf b)" "written (buf (indented b)) = written (buf b)"
  "stack (indented b) = stack b"
  "pending (buf (indented b)) = indentation (indent b) (depth b) (pending (buf b))"
  by (simp_all add: indented_def)

lemma kept_indented [simp]: "kept b (indented b)"
  by (simp add: kept_def)

lemma instruct_option_eq:
  assumes "option_ok v" and "n = length label"
  shows "(case v of None \<Rightarrow> Done b | Some x \<Rightarrow> instruct_option b label n x) =
    Done (b\<lparr>buf := add_bytes (buf b)
      (case v of None \<Rightarrow> [] | Some x \<Rightarrow> label @ name_bytes x @ [CHR 0x22])\<rparr>)"
proof (cases v)
  case None
  then show ?thesis by (simp add: add_bytes_def)
next
  case (Some x)
  with assms(1) obtain s where "x = T_STRING s"
    by (cases x) (simp_all add: option_ok_def is_string_def)
  with Some assms(2) show ?thesis
    by (simp add: instruct_option_def name_bytes_def buf_ops)
qed

lemma builder_instruct_eq:
  assumes "leaf_ok (Instruct decl options)" and "fits b 0"
  shows "\<exists>enc. builder_instruct b decl options =
    Done ((indented (child_mark b False))
      \<lparr>buf := add_bytes (buf (indented (child_mark b False)))
         (case decl of
            None \<Rightarrow> ''<?xml?>''
          | Some target \<Rightarrow>
              ''<?'' @ escape (name_bytes target) @
              (case options of
                 None \<Rightarrow> []
               | Some h \<Rightarrow>
                   (case opt_version h of None \<Rightarrow> []
                    | Some x \<Rightarrow> ('' version='' @ [CHR 0x22]) @ name_bytes x @ [CHR 0x22]) @
                   (case opt_encoding h of None \<Rightarrow> []
                    | Some x \<Rightarrow> ('' encoding='' @ [CHR 0x22]) @ name_bytes x @ [CHR 0x22]) @
                   (case opt_standalone h of None \<Rightarrow> []
                    | Some x \<Rightarrow> ('' standalone='' @ [CHR 0x22]) @ name_bytes x @ [CHR 0x22])) @
              ''?>''),
        encoding := enc\<rparr>)"
proof -
  let ?bi = "indented (child_mark b False)"
  from assms(2) have m: "i_am_a_child b False = Done (child_mark b False)"
    by (intro i_am_a_child_eq fits_depth)
  from assms(2) have ai: "append_indent (child_mark b False) = ?bi"
    by (intro append_indent_indented) simp
  show ?thesis
  proof (cases decl)
    case None
    show ?thesis
      by (rule exI [of _ "encoding ?bi"])
        (simp add: None builder_instruct_def m ai Let_def buf_ops)
  next
    case (Some target)
    with assms(1) have t: "escapable target" by (cases options) simp_all
    note ts = append_sym_str_escapable [OF t]
    show ?thesis
    proof (cases options)
      case None
      show ?thesis
        by (rule exI [of _ "encoding ?bi"])
          (simp add: Some None builder_instruct_def m ai Let_def ts with_buf_def buf_ops)
    next
      case (Some h)
      with \<open>decl = Some target\<close> assms(1)
      have ok: "option_ok (opt_version h)" "option_ok (opt_encoding h)" "option_ok (opt_standalone h)"
        by simp_all
      have v: "(case opt_version h of None \<Rightarrow> Done bx
                | Some x \<Rightarrow> instruct_option bx ('' version='' @ [CHR 0x22]) 10 x) =
          Done (bx\<lparr>buf := add_bytes (buf bx) (case opt_version h of None \<Rightarrow> []
                    | Some x \<Rightarrow> ('' version='' @ [CHR 0x22]) @ name_bytes x @ [CHR 0x22])\<rparr>)" for bx
        by (rule instruct_option_eq [OF ok(1)]) simp
      have s: "(case opt_standalone h of None \<Rightarrow> Done bx
                | Some x \<Rightarrow> instruct_option bx ('' standalone='' @ [CHR 0x22]) 13 x) =
          Done (bx\<lparr>buf := add_bytes (buf bx) (case opt_standalone h of None \<Rightarrow> []
                    | Some x \<Rightarrow> ('' standalone='' @ [CHR 0x22]) @ name_bytes x @ [CHR 0x22])\<rparr>)" for bx
        by (rule instruct_option_eq [OF ok(3)]) simp
      note defs = \<open>decl = Some target\<close> Some builder_instruct_def m ai Let_def ts with_buf_def
            b_append_string_def buf_append_string_eq v s add_bytes_add_bytes
      show ?thesis
      proof (cases "opt_encoding h")
        case None
        show ?thesis
          by (rule exI [of _ "encoding ?bi"]) (simp add: defs None)
      next
        case (Some x)
        with ok(2) obtain str where x: "x = T_STRING str"
          by (cases x) (simp_all add: option_ok_def is_string_def)
        show ?thesis
          by (rule exI [of _ "take 63 (takeWhile (\<lambda>c. c \<noteq> NUL) str)"])
            (simp add: defs Some x instruct_option_def name_bytes_def buf_ops)
      qed
    qed
  qed
qed

lemma string_value: "is_string v \<Longrightarrow> \<exists>s. v = T_STRING s"
  by (cases v) (simp_all add: is_string_def)

lemma leaf_uniform:
  assumes "leaf_ok c"
  shows "\<exists>M. \<forall>b. fits b 0 \<longrightarrow>
    (\<exists>b'. exec c b = Done b' \<and> kept (child_mark b (text_node (Item c))) b' \<and>
       pending (buf b') =
         (if text_node (Item c) then pending (buf (child_mark b True))
          else indentation (indent b) (depth b) (pending (buf (child_mark b False)))) @ M)"
proof (cases c)
  case (Instruct decl options)
  let ?M = "case decl of
            None \<Rightarrow> ''<?xml?>''
          | Some target \<Rightarrow>
              ''<?'' @ escape (name_bytes target) @
              (case options of
                 None \<Rightarrow> []
               | Some h \<Rightarrow>
                   (case opt_version h of None \<Rightarrow> []
                    | Some x \<Rightarrow> ('' version='' @ [CHR 0x22]) @ name_bytes x @ [CHR 0x22]) @
                   (case opt_encoding h of None \<Rightarrow> []
                    | Some x \<Rightarrow> ('' encoding='' @ [CHR 0x22]) @ name_bytes x @ [CHR 0x22]) @
                   (case opt_standalone h of None \<Rightarrow> []
                    | Some x \<Rightarrow> ('' standalone='' @ [CHR 0x22]) @ name_bytes x @ [CHR 0x22])) @
              ''?>''"
  show ?thesis
  proof (intro exI [of _ ?M] allI impI)
    fix b assume "fits b 0"
    from builder_instruct_eq [OF assms [unfolded Instruct] this]
    obtain enc where "builder_instruct b decl options =
      Done ((indented (child_mark b False))
        \<lparr>buf := add_bytes (buf (indented (child_mark b False))) ?M, encoding := enc\<rparr>)" ..
    then show "\<exists>b'. exec c b = Done b' \<and> kept (child_mark b (text_node (Item c))) b' \<and>
       pending (buf b') =
         (if text_node (Item c) then pending (buf (child_mark b True))
          else indentation (indent b) (depth b) (pending (buf (child_mark b False)))) @ ?M"
      by (simp add: Instruct kept_def add_bytes_def)
  qed
next
  case (Element a1 a2 a3)
  with assms show ?thesis by simp
next
  case (Comment v)
  with assms obtain s where v: "v = T_STRING s" using string_value by auto
  show ?thesis
  proof (intro exI [of _ "''<!-- '' @ s @ '' --/>''"] allI impI)
    fix b assume f: "fits b 0"
    then have "fits (child_mark b False) 0" by simp
    with f show "\<exists>b'. exec c b = Done b' \<and> kept (child_mark b (text_node (Item c))) b' \<and>
       pending (buf b') =
         (if text_node (Item c) then pending (buf (child_mark b True))
          else indentation (indent b) (depth b) (pending (buf (child_mark b False)))) @
         ''<!-- '' @ s @ '' --/>''"
      by (simp add: Comment v builder_comment_def i_am_a_child_eq fits_depth append_indent_indented
          append_value_def StringValuePtr_def Let_def kept_def buf_ops)
  qed
next
  case (Doctype v)
  with assms obtain s where v: "v = T_STRING s" using string_value by auto
  show ?thesis
  proof (intro exI [of _ "''<!DOCTYPE '' @ s @ ''>''"] allI impI)
    fix b assume f: "fits b 0"
    then have "fits (child_mark b False) 0" by simp
    with f show "\<exists>b'. exec c b = Done b' \<and> kept (child_mark b (text_node (Item c))) b' \<and>
       pending (buf b') =
         (if text_node (Item c) then pending (buf (child_mark b True))
          else indentation (indent b) (depth b) (pending (buf (child_mark b False)))) @
         ''<!DOCTYPE '' @ s @ ''>''"
      by (simp add: Doctype v builder_doctype_def i_am_a_child_eq fits_depth append_indent_indented
          append_value_def StringValuePtr_def Let_def kept_def buf_ops)
  qed
next
  case (Text v)
  with assms obtain s where v: "v = T_STRING s" using string_value by auto
  with assms Text have s: "\<forall>c\<in>set s. \<not> illegal_byte c" "length s < 2 ^ 31"
    by (simp_all add: escapable_def name_bytes_def list_all_iff)
  show ?thesis
  proof (intro exI [of _ "escape s"] allI impI)
    fix b assume f: "fits b 0"
    then have d: "depth b < MAX_DEPTH" by (rule fits_depth)
    show "\<exists>b'. exec c b = Done b' \<and> kept (child_mark b (text_node (Item c))) b' \<and>
       pending (buf b') =
         (if text_node (Item c) then pending (buf (child_mark b True))
          else indentation (indent b) (depth b) (pending (buf (child_mark b False)))) @
         escape s"
      by (simp add: Text v builder_text_eq [OF d s(2)] i_am_a_child_eq [OF d]
          slow_path_legal [OF s(1)] with_buf_def kept_def add_bytes_def)
  qed
next
  case (CData v)
  with assms obtain s where v: "v = T_STRING s" using string_value by auto
  show ?thesis
  proof (intro exI [of _ "''<![CDATA['' @ s @ '']]>''"] allI impI)
    fix b assume f: "fits b 0"
    then have "fits (child_mark b False) 0" by simp
    with f show "\<exists>b'. exec c b = Done b' \<and> kept (child_mark b (text_node (Item c))) b' \<and>
       pending (buf b') =
         (if text_node (Item c) then pending (buf (child_mark b True))
          else indentation (indent b) (depth b) (pending (buf (child_mark b False)))) @
         ''<![CDATA['' @ s @ '']]>''"
      by (simp add: CData v builder_cdata_def i_am_a_child_eq fits_depth append_indent_indented
          append_value_def StringValuePtr_def Let_def kept_def buf_ops)
  qed
next
  case (Raw v)
  with assms obtain s where v: "v = T_STRING s" using string_value by auto
  show ?thesis
  proof (intro exI [of _ s] allI impI)
    fix b assume f: "fits b 0"
    then show "\<exists>b'. exec c b = Done b' \<and> kept (child_mark b (text_node (Item c))) b' \<and>
       pending (buf b') =
         (if text_node (Item c) then pending (buf (child_mark b True))
          else indentation (indent b) (depth b) (pending (buf (child_mark b False)))) @ s"
      by (simp add: Raw v builder_raw_def i_am_a_child_eq fits_depth
          append_value_def StringValuePtr_def kept_def buf_ops)
  qed
next
  case To_s
  with assms show ?thesis by simp
next
  case Pop
  with assms show ?thesis by simp
next
  case Close
  with assms show ?thesis by simp
qed

lemma fits_probe: "fits (init blank 0 0 0) 0"
  by (simp add: fits_def MAX_DEPTH_def)

lemma child_mark_root: "depth b < 0 \<Longrightarrow> child_mark b t = b"
  by (simp add: child_mark_def)

lemma indentation_Nil [simp]: "indentation ind d [] = []"
  by (simp add: indentation_def)

lemma leaf_exec:
  assumes "leaf_ok c" and "fits b 0"
  shows "\<exists>b'. exec c b = Done b' \<and> kept (child_mark b (text_node (Item c))) b' \<and>
       pending (buf b') =
         (if text_node (Item c) then pending (buf (child_mark b True))
          else indentation (indent b) (depth b) (pending (buf (child_mark b False)))) @
         item_markup c"
proof -
  from leaf_uniform [OF assms(1)] obtain M where
    M: "\<And>b. fits b 0 \<Longrightarrow> \<exists>b'. exec c b = Done b' \<and> kept (child_mark b (text_node (Item c))) b' \<and>
       pending (buf b') =
         (if text_node (Item c) then pending (buf (child_mark b True))
          else indentation (indent b) (depth b) (pending (buf (child_mark b False)))) @ M"
    by blast
  from M [OF fits_probe] obtain p where
    p: "exec c (init blank 0 0 0) = Done p" "kept (init blank 0 0 0) p" "pending (buf p) = M"
    by (auto simp: child_mark_root)
  then have "item_markup c = M"
    by (simp add: item_markup_def emitted_def kept_def)
  with M [OF assms(2)] show ?thesis by simp
qed

subsection \<open>Documents\<close>

lemma child_marks_Nil [simp]: "child_marks b [] = b"
  by (simp add: child_marks_def)

lemma child_marks_Cons: "child_marks b (k # ks) = child_marks (child_mark b (text_node k)) ks"
  by (simp add: child_marks_def)

lemma child_marks_fields [simp]:
  "depth (child_marks b ks) = depth b"
  "indent (child_marks b ks) = indent b"
  "file' (child_marks b ks) = file' b"
  "fd (buf (child_marks b ks)) = fd (buf b)"
  "written (buf (child_marks b ks)) = written (buf b)"
  by (induction ks arbitrary: b) (simp_all add: child_marks_Cons)

lemma has_child_child_mark:
  "0 \<le> depth b \<Longrightarrow> has_child (stack (child_mark b t) (nat (depth b)))"
  by (simp add: stack_child_mark_top)

lemma pending_child_marks_marked:
  "depth b < 0 \<or> has_child (stack b (nat (depth b))) \<Longrightarrow>
   pending (buf (child_marks b ks)) = pending (buf b)"
proof (induction ks arbitrary: b)
  case Nil
  then show ?case by simp
next
  case (Cons k ks)
  have "depth (child_mark b (text_node k)) < 0 \<or>
      has_child (stack (child_mark b (text_node k)) (nat (depth (child_mark b (text_node k)))))"
    using has_child_child_mark [of b "text_node k"] by (cases "0 \<le> depth b") simp_all
  from Cons.IH [OF this] Cons.prems show ?case
    by (auto simp: child_marks_Cons pending_child_mark)
qed

lemma pending_child_marks:
  "pending (buf (child_marks b ks)) =
     pending (buf b) @
     (if ks \<noteq> [] \<and> 0 \<le> depth b \<and> \<not> has_child (stack b (nat (depth b))) then ''>'' else [])"
proof (cases ks)
  case Nil
  then show ?thesis by simp
next
  case (Cons k ks')
  have "depth (child_mark b (text_node k)) < 0 \<or>
      has_child (stack (child_mark b (text_node k)) (nat (depth (child_mark b (text_node k)))))"
    using has_child_child_mark [of b "text_node k"] by (cases "0 \<le> depth b") simp_all
  from pending_child_marks_marked [OF this] show ?thesis
    by (simp add: Cons child_marks_Cons pending_child_mark)
qed

lemma kept_child_mark: "kept a b \<Longrightarrow> kept (child_mark a t) (child_mark b t)"
  by (auto simp: kept_def child_mark_def add_bytes_def)

lemma kept_child_marks: "kept a b \<Longrightarrow> kept (child_marks a ks) (child_marks b ks)"
  by (induction ks arbitrary: a b) (simp_all add: child_marks_Cons kept_child_mark)

lemma stack_child_marks_below:
  "int k < depth b \<Longrightarrow> stack (child_marks b ks) k = stack b k"
  by (induction ks arbitrary: b) (simp_all add: child_marks_Cons stack_child_mark_below)

lemma stack_child_marks_top:
  "0 \<le> depth b \<Longrightarrow> stack (child_marks b ks) (nat (depth b)) =
     (stack b (nat (depth b)))
       \<lparr>has_child := has_child (stack b (nat (depth b))) \<or> ks \<noteq> [],
        non_text_child := non_text_child (stack b (nat (depth b))) \<or> \<not> list_all text_node ks\<rparr>"
proof (induction ks arbitrary: b)
  case Nil
  then show ?case by simp
next
  case (Cons k ks)
  from Cons.prems have "0 \<le> depth (child_mark b (text_node k))" by simp
  from Cons.IH [OF this] Cons.prems show ?case
    by (auto simp: child_marks_Cons stack_child_mark_top)
qed

lemma heights_Cons: "heights (k # ks) = max (height k) (heights ks)"
  by (simp add: heights_def)

lemma height_Elem: "height (Elem nm attrs blk kids) = Suc (heights kids)"
  by (simp add: heights_def)

lemma fits_kept: "kept a b \<Longrightarrow> fits b h = fits a h"
  by (simp add: kept_def fits_def)

lemma frame_name_flags [simp]:
  "frame_name (e\<lparr>has_child := h, non_text_child := n\<rparr>) nm = frame_name e nm"
  by (cases "name e") (simp_all add: frame_name_def name_memory_def)

lemma forest_run:
  "\<lbrakk>\<And>k b. k \<in> set kids \<Longrightarrow> valid k \<Longrightarrow> fits b (height k) \<Longrightarrow>
      \<exists>b'. run (calls_of k) b = Done b' \<and> kept (child_mark b (text_node k)) b' \<and>
        pending (buf b') =
          xml (indent b) (depth b) k (pending (buf (child_mark b (text_node k))));
    list_all valid kids; fits b (heights kids)\<rbrakk> \<Longrightarrow>
   \<exists>b'. run (concat (map calls_of kids)) b = Done b' \<and> kept (child_marks b kids) b' \<and>
     pending (buf b') = fold (xml (indent b) (depth b)) kids (pending (buf (child_marks b kids)))"
proof (induction kids arbitrary: b)
  case Nil
  then show ?case by simp
next
  case (Cons k ks)
  let ?bm = "child_mark b (text_node k)"
  from Cons.prems(3) have fk: "fits b (height k)" and fks: "fits b (heights ks)"
    by (auto simp: heights_Cons intro: fits_less)
  from Cons.prems(2) have vk: "valid k" and vks: "list_all valid ks" by simp_all
  from Cons.prems(1) [OF _ vk fk] obtain b1 where
    b1: "run (calls_of k) b = Done b1" "kept ?bm b1"
      "pending (buf b1) = xml (indent b) (depth b) k (pending (buf ?bm))"
    by auto
  from b1(2) have same: "depth b1 = depth b" "indent b1 = indent b" by (simp_all add: kept_def)
  from fks b1(2) have "fits b1 (heights ks)" by (simp add: fits_kept)
  from Cons.IH [OF Cons.prems(1) vks this] obtain b' where
    b': "run (concat (map calls_of ks)) b1 = Done b'" "kept (child_marks b1 ks) b'"
      "pending (buf b') = fold (xml (indent b1) (depth b1)) ks (pending (buf (child_marks b1 ks)))"
    by auto
  have marked1: "depth b1 < 0 \<or> has_child (stack b1 (nat (depth b1)))"
  proof (cases "0 \<le> depth b")
    case True
    with b1(2) have "stack b1 (nat (depth b)) = stack ?bm (nat (depth b))"
      by (simp add: kept_def)
    with True same show ?thesis by (simp add: has_child_child_mark)
  next
    case False
    with same show ?thesis by simp
  qed
  have markedm: "depth ?bm < 0 \<or> has_child (stack ?bm (nat (depth ?bm)))"
    using has_child_child_mark [of b "text_node k"] by (cases "0 \<le> depth b") simp_all
  have "run (concat (map calls_of (k # ks))) b = Done b'"
    by (simp add: run_append b1(1) b'(1))
  moreover have "kept (child_marks b (k # ks)) b'"
    using kept_child_marks [OF b1(2), of ks] b'(2) by (simp add: child_marks_Cons kept_trans)
  moreover have "pending (buf b') =
      fold (xml (indent b) (depth b)) (k # ks) (pending (buf (child_marks b (k # ks))))"
    by (simp add: b'(3) same pending_child_marks_marked [OF marked1] b1(3) child_marks_Cons
        pending_child_marks_marked [OF markedm])
  ultimately show ?case by blast
qed

lemma and_then_Done_right [simp]: "and_then r Done = r"
  by (cases r) simp_all

lemma run_Pop: "run [Pop] = pop"
  by (rule ext) (simp add: run_single builder_pop_def del: run.simps)

lemma element_run:
  assumes kids: "\<And>b. fits b (heights kids) \<Longrightarrow>
      \<exists>b'. run body b = Done b' \<and> kept (child_marks b kids) b' \<and>
        pending (buf b') = fold (xml (indent b) (depth b)) kids (pending (buf (child_marks b kids)))"
    and ok: "name_ok nm" "attrs_ok attrs"
    and fits: "fits b (Suc (heights kids))"
    and blk: "blk = None \<or> blk = Some (\<lambda>b'. run body b')"
  shows "\<exists>b'. and_then (builder_element b (Some nm) attrs blk)
             (case blk of None \<Rightarrow> (\<lambda>b1. and_then (run body b1) pop) | Some y \<Rightarrow> Done) = Done b' \<and>
           kept (child_mark b False) b' \<and>
           pending (buf b') =
             xml (indent b) (depth b) (Elem nm attrs flag kids) (pending (buf (child_mark b False)))"
proof -
  from fits have f1: "fits b 1" by (rule fits_less) simp
  from builder_element_eq [OF ok f1, of blk] obtain b1 where
    el: "builder_element b (Some nm) attrs blk =
           (case blk of None \<Rightarrow> Done b1 | Some yield \<Rightarrow> and_then (yield b1) pop)" and
    b1: "depth b1 = depth b + 1" "indent b1 = indent b" "fd (buf b1) = fd (buf b)"
      "written (buf b1) = written (buf b)" "file' b1 = file' b" and
    p1: "pending (buf b1) =
           indentation (indent b) (depth b) (pending (buf (child_mark b False))) @
           ''<'' @ name_bytes nm @ attrs_markup attrs" and
    s1: "\<forall>k. int k \<le> depth b \<longrightarrow> stack b1 k = stack (child_mark b False) k" and
    top: "frame_name (stack b1 (nat (depth b + 1))) (name_bytes nm)"
      "\<not> has_child (stack b1 (nat (depth b + 1)))"
      "\<not> non_text_child (stack b1 (nat (depth b + 1)))"
    by blast
  from fits have d: "- 1 \<le> depth b" by (simp add: fits_def)
  from fits b1 have "fits b1 (heights kids)" by (simp add: fits_def)
  from kids [OF this] obtain b2 where
    b2: "run body b1 = Done b2" "kept (child_marks b1 kids) b2" and
    p2: "pending (buf b2) =
      fold (xml (indent b1) (depth b1)) kids (pending (buf (child_marks b1 kids)))"
    by blast
  have whole: "and_then (builder_element b (Some nm) attrs blk)
             (case blk of None \<Rightarrow> (\<lambda>b1. and_then (run body b1) pop) | Some y \<Rightarrow> Done) = pop b2"
    using blk by (auto simp: el b2(1))
  from b2(2) have k2: "depth b2 = depth b + 1" "indent b2 = indent b" "fd (buf b2) = fd (buf b)"
      "written (buf b2) = written (buf b)" "file' b2 = file' b"
    and s2: "\<forall>k. int k \<le> depth b + 1 \<longrightarrow> stack b2 k = stack (child_marks b1 kids) k"
    by (simp_all add: kept_def b1)
  from d have "int (nat (depth b + 1)) \<le> depth b + 1" by simp
  with s2 have "stack b2 (nat (depth b + 1)) = stack (child_marks b1 kids) (nat (depth b1))"
    by (simp add: b1)
  also have "\<dots> = (stack b1 (nat (depth b1)))
       \<lparr>has_child := has_child (stack b1 (nat (depth b1))) \<or> kids \<noteq> [],
        non_text_child := non_text_child (stack b1 (nat (depth b1))) \<or> \<not> list_all text_node kids\<rparr>"
    using d by (intro stack_child_marks_top) (simp add: b1)
  finally have top2: "stack b2 (nat (depth b2)) = (stack b1 (nat (depth b + 1)))
       \<lparr>has_child := kids \<noteq> [], non_text_child := \<not> list_all text_node kids\<rparr>"
    using top by (simp add: b1 k2)
  then have fn: "frame_name (stack b2 (nat (depth b2))) (name_bytes nm)"
    using top(1) by simp
  from fits k2 have f2: "fits b2 0" by (simp add: fits_def)
  from d k2 have d2: "0 \<le> depth b2" by simp
  from pop_eq [OF d2 f2 fn] obtain b3 where
    b3: "pop b2 = Done b3" "depth b3 = depth b2 - 1" "indent b3 = indent b2"
      "fd (buf b3) = fd (buf b2)" "written (buf b3) = written (buf b2)" "file' b3 = file' b2" and
    p3: "pending (buf b3) =
           (if has_child (stack b2 (nat (depth b2))) then
              (if non_text_child (stack b2 (nat (depth b2)))
               then indentation (indent b2) (depth b2 - 1) (pending (buf b2))
               else pending (buf b2)) @ ''</'' @ name_bytes nm @ ''>''
            else pending (buf b2) @ ''/>'')" and
    s3: "\<forall>k. int k < depth b2 \<longrightarrow> stack b3 k = stack b2 k"
    by blast
  have "kept (child_mark b False) b3"
  proof -
    have "stack b3 k = stack (child_mark b False) k" if "int k \<le> depth b" for k
    proof -
      from that have "stack b3 k = stack b2 k" using s3 by (simp add: k2)
      also from that have "\<dots> = stack (child_marks b1 kids) k" using s2 by simp
      also from that have "\<dots> = stack b1 k" by (intro stack_child_marks_below) (simp add: b1)
      also from that have "\<dots> = stack (child_mark b False) k" using s1 by simp
      finally show ?thesis .
    qed
    then show ?thesis by (simp add: kept_def b3 k2)
  qed
  moreover have "pending (buf b3) =
      xml (indent b) (depth b) (Elem nm attrs flag kids) (pending (buf (child_mark b False)))"
  proof -
    have pm: "pending (buf (child_marks b1 kids)) =
        pending (buf b1) @ (if kids \<noteq> [] then ''>'' else [])"
      using d top(2) by (simp add: pending_child_marks b1)
    have hc: "has_child (stack b2 (nat (depth b2))) = (kids \<noteq> [])"
      and ntc: "non_text_child (stack b2 (nat (depth b2))) = (\<not> list_all text_node kids)"
      by (simp_all add: top2)
    note p3' = p3 [unfolded hc ntc]
    show ?thesis
    proof (cases "kids = []")
      case True
      then show ?thesis
        by (simp add: p3' p2 pm p1)
    next
      case False
      then show ?thesis
        by (simp add: p3' p2 pm p1 k2 b1 Let_def)
    qed
  qed
  ultimately show ?thesis by (simp add: whole b3(1))
qed

lemma node_run:
  "valid n \<Longrightarrow> fits b (height n) \<Longrightarrow>
   \<exists>b'. run (calls_of n) b = Done b' \<and> kept (child_mark b (text_node n)) b' \<and>
     pending (buf b') = xml (indent b) (depth b) n (pending (buf (child_mark b (text_node n))))"
proof (induction n arbitrary: b)
  case (Item c)
  then have "leaf_ok c" "fits b 0" by simp_all
  from leaf_exec [OF this] obtain b' where
    "exec c b = Done b'" "kept (child_mark b (text_node (Item c))) b'"
    "pending (buf b') =
         (if text_node (Item c) then pending (buf (child_mark b True))
          else indentation (indent b) (depth b) (pending (buf (child_mark b False)))) @
         item_markup c"
    by blast
  then show ?case by (cases "text_node (Item c)") simp_all
next
  case (Elem nm attrs blk kids)
  let ?body = "concat (map calls_of kids)"
  from Elem.prems have ok: "name_ok nm" "attrs_ok attrs" and vk: "list_all valid kids"
    and fits: "fits b (Suc (heights kids))"
    by (simp_all add: heights_def)
  have kids: "\<exists>b'. run ?body b0 = Done b' \<and> kept (child_marks b0 kids) b' \<and>
        pending (buf b') = fold (xml (indent b0) (depth b0)) kids (pending (buf (child_marks b0 kids)))"
    if "fits b0 (heights kids)" for b0
    using Elem.IH vk that by (rule forest_run)
  show ?case
  proof (cases blk)
    case True
    from element_run [where body = ?body and blk = "Some (\<lambda>b'. run ?body b')" and flag = blk,
        OF kids ok fits]
    show ?thesis by (simp add: True run_single del: run.simps)
  next
    case False
    have "run (calls_of (Elem nm attrs blk kids)) b =
        and_then (builder_element b (Some nm) attrs None) (\<lambda>b1. and_then (run ?body b1) pop)"
      by (cases "builder_element b (Some nm) attrs None")
        (simp_all add: False run_append run_Pop)
    with element_run [where body = ?body and blk = None and flag = blk, OF kids ok fits]
    show ?thesis by simp
  qed
qed

subsection \<open>Blocks and explicit pops\<close>

lemma and_then_assoc: "and_then (and_then r f) g = and_then r (\<lambda>s. and_then (f s) g)"
  by (cases r) simp_all

lemma builder_element_block:
  "builder_element b argv0 argv1 (Some y) =
     and_then (builder_element b argv0 argv1 None) (\<lambda>b1. and_then (y b1) pop)"
proof (cases argv0)
  case None
  then show ?thesis by (simp add: builder_element_def)
next
  case (Some v)
  show ?thesis
  proof (cases "i_am_a_child b False")
    case (Raised e s)
    then show ?thesis by (simp add: builder_element_def Some)
  next
    case (Done bm)
    let ?b = "(append_indent bm)\<lparr>depth := depth (append_indent bm) + 1\<rparr>"
    show ?thesis
    proof (cases "MAX_DEPTH \<le> depth ?b")
      case True
      then show ?thesis by (simp add: builder_element_def Some Done Let_def)
    next
      case False
      show ?thesis
      proof (cases "case v of
                        T_STRING s \<Rightarrow> Some (s, c_int (int (length s)))
                      | T_SYMBOL s \<Rightarrow> Some (s, c_int (int (strlen s)))
                      | T_OTHER \<Rightarrow> None")
        case None
        with False show ?thesis by (simp add: builder_element_def Some Done Let_def)
      next
        case nm: (Some p)
        obtain s l where p: "p = (s, l)" by (cases p)
        from False nm show ?thesis
          by (simp add: builder_element_def Some Done Let_def p and_then_assoc)
      qed
    qed
  qed
qed

lemma run_flat_list:
  "(\<And>k b. k \<in> set kids \<Longrightarrow> run (calls_of k) b = run (flat k) b) \<Longrightarrow>
   run (concat (map calls_of kids)) b = run (concat (map flat kids)) b"
proof (induction kids arbitrary: b)
  case Nil
  show ?case by simp
next
  case (Cons k kids)
  have "run (concat (map calls_of kids)) = run (concat (map flat kids))"
    by (rule ext) (rule Cons.IH, rule Cons.prems, simp)
  moreover have "run (calls_of k) b = run (flat k) b"
    by (rule Cons.prems) simp
  ultimately show ?case by (simp add: run_append del: run.simps)
qed

lemma run_flat: "run (calls_of n) b = run (flat n) b"
proof (induction n arbitrary: b)
  case (Item c)
  show ?case by simp
next
  case (Elem nm attrs blk kids)
  have body: "run (concat (map calls_of kids)) = run (concat (map flat kids))"
    by (rule ext) (rule run_flat_list, rule Elem.IH)
  have "run (flat (Elem nm attrs blk kids)) b =
      and_then (builder_element b (Some nm) attrs None)
        (\<lambda>b1. and_then (run (concat (map flat kids)) b1) pop)"
    by (cases "builder_element b (Some nm) attrs None") (simp_all add: run_append run_Pop)
  moreover have "run (calls_of (Elem nm attrs blk kids)) b =
      and_then (builder_element b (Some nm) attrs None)
        (\<lambda>b1. and_then (run (concat (map calls_of kids)) b1) pop)"
  proof (cases blk)
    case True
    then show ?thesis
      by (simp add: run_single builder_element_block del: run.simps)
  next
    case False
    then show ?thesis
      by (cases "builder_element b (Some nm) attrs None") (simp_all add: run_append run_Pop)
  qed
  ultimately show ?case by (simp add: body)
qed

lemma run_flat_forest: "run (concat (map calls_of forest)) b = run (concat (map flat forest)) b"
  by (rule run_flat_list) (rule run_flat)

subsection \<open>The depth stays within the stack\<close>

lemma depth_append_indent [simp]: "depth (append_indent b) = depth b"
  by (simp add: append_indent_def Let_def b_append_string_def)

lemma depth_b_append [simp]: "depth (b_append b c) = depth b"
  by (simp add: b_append_def)

lemma depth_b_append_string [simp]: "depth (b_append_string b s n) = depth b"
  by (simp add: b_append_string_def)

lemma depth_with_buf [simp]: "depth (state_of (with_buf b r)) = depth b"
  by (cases r) (simp_all add: with_buf_def)

lemma depth_append_value [simp]: "depth (state_of (append_value b v)) = depth b"
  by (simp add: append_value_def split: option.splits)

lemma depth_instruct_option [simp]: "depth (state_of (instruct_option b l n v)) = depth b"
  by (simp add: instruct_option_def split: VALUE.splits)

lemma depth_and_then:
  "\<lbrakk>depth (state_of r) = d; \<And>s. r = Done s \<Longrightarrow> depth (state_of (f s)) = depth s\<rbrakk> \<Longrightarrow>
   depth (state_of (and_then r f)) = d"
  by (cases r) simp_all

lemma depth_i_am_a_child [simp]: "depth (state_of (i_am_a_child b t)) = depth b"
  by (simp add: i_am_a_child_def Let_def)

lemma depth_append_name [simp]: "depth (state_of (append_name b e)) = depth b"
  by (simp add: append_name_def split: option.splits)

lemma depth_append_attr [simp]: "depth (state_of (append_attr k v b)) = depth b"
  unfolding append_attr_def Let_def
  by (intro depth_and_then) (simp_all split: VALUE.splits)

lemma depth_rb_hash_foreach [simp]: "depth (state_of (rb_hash_foreach hash b)) = depth b"
proof (induction hash arbitrary: b)
  case Nil
  show ?case by simp
next
  case (Cons kv hash)
  obtain k v where "kv = (k, v)" by (cases kv)
  then show ?case by (simp add: depth_and_then Cons.IH)
qed

lemma depth_leaf:
  "depth (state_of (builder_comment b v)) = depth b"
  "depth (state_of (builder_doctype b v)) = depth b"
  "depth (state_of (builder_cdata b v)) = depth b"
  "depth (state_of (builder_raw b v)) = depth b"
  "depth (state_of (builder_text b v)) = depth b"
  by (simp_all add: builder_comment_def builder_doctype_def builder_cdata_def builder_raw_def
      builder_text_def depth_and_then Let_def split: option.splits)

lemma depth_builder_instruct: "depth (state_of (builder_instruct b decl options)) = depth b"
  unfolding builder_instruct_def Let_def
  by (intro depth_and_then) (simp_all add: depth_and_then split: option.splits VALUE.splits)

lemma depth_to_s: "depth (state_of (case builder_to_s b of Done (r, b') \<Rightarrow> Done b' | Raised e b' \<Rightarrow> Raised e b')) = depth b"
  by (simp add: builder_to_s_def to_s_def Let_def)

lemma in_range_same:
  "- 1 \<le> depth b \<Longrightarrow> depth b < MAX_DEPTH \<Longrightarrow> depth (state_of r) = depth b \<Longrightarrow> in_range r"
  by (cases r) (simp_all add: in_range_def)

lemma in_range_pop:
  assumes "- 1 \<le> depth b" and "depth b < MAX_DEPTH"
  shows "in_range (pop b)"
proof (cases "0 \<le> depth b")
  case False
  with assms show ?thesis by (simp add: pop_def in_range_def)
next
  case True
  let ?bd = "b\<lparr>depth := depth b - 1\<rparr>"
  have "depth (state_of (pop b)) = depth b - 1"
    using True assms
    by (simp add: pop_def Let_def depth_and_then)
  with True assms show ?thesis
    by (cases "pop b") (simp_all add: in_range_def)
qed

lemma in_range_and_then:
  "\<lbrakk>in_range r; \<And>s. r = Done s \<Longrightarrow> in_range (f s)\<rbrakk> \<Longrightarrow> in_range (and_then r f)"
  by (cases r) (simp_all add: in_range_def)

lemma in_range_Done: "in_range (Done s) = (- 1 \<le> depth s \<and> depth s < MAX_DEPTH)"
  by (simp add: in_range_def)

lemma in_range_builder_element:
  assumes "- 1 \<le> depth b" and "depth b < MAX_DEPTH"
  shows "in_range (builder_element b argv0 argv1 None)"
proof (cases argv0)
  case None
  with assms show ?thesis by (simp add: builder_element_def in_range_def)
next
  case (Some v)
  from assms(2) have m: "i_am_a_child b False = Done (child_mark b False)" by (rule i_am_a_child_eq)
  let ?b = "(append_indent (child_mark b False))\<lparr>depth := depth b + 1\<rparr>"
  show ?thesis
  proof (cases "MAX_DEPTH \<le> depth b + 1")
    case True
    with assms show ?thesis
      by (simp add: builder_element_def Some m Let_def in_range_def)
  next
    case False
    have "depth (state_of (builder_element b argv0 argv1 None)) = depth b + 1"
      using False
      by (simp add: builder_element_def Some m Let_def depth_and_then
          split: option.splits VALUE.splits prod.splits)
    with False assms show ?thesis
      by (cases "builder_element b argv0 argv1 None") (simp_all add: in_range_def)
  qed
qed

lemma in_range_bclose_loop:
  "- 1 \<le> depth b \<Longrightarrow> depth b < MAX_DEPTH \<Longrightarrow> in_range (bclose_loop b)"
proof (induction b rule: bclose_loop.induct)
  case (1 b)
  show ?case
  proof (cases "0 \<le> depth b")
    case False
    with 1 show ?thesis by (simp add: in_range_def)
  next
    case True
    from "1.prems" have p: "in_range (pop b)" by (rule in_range_pop)
    show ?thesis
    proof (cases "pop b")
      case (Done b')
      with p have "- 1 \<le> depth b'" "depth b' < MAX_DEPTH" by (simp_all add: in_range_def)
      from "1.IH" [OF True Done this] True Done show ?thesis by simp
    next
      case (Raised e b')
      with p True show ?thesis by (simp add: in_range_def)
    qed
  qed
qed

lemma in_range_bclose:
  assumes "- 1 \<le> depth b" and "depth b < MAX_DEPTH"
  shows "in_range (bclose b)"
  unfolding bclose_def
proof (rule in_range_and_then)
  show "in_range (bclose_loop b)" using assms by (rule in_range_bclose_loop)
next
  fix s assume "bclose_loop b = Done s"
  with in_range_bclose_loop [OF assms] have "- 1 \<le> depth s" "depth s < MAX_DEPTH"
    by (simp_all add: in_range_def)
  then show "in_range (let b = b_append s CHR 0x0A; b = b\<lparr>buf := buf_finish (buf b)\<rparr> in fclose b)"
    by (simp add: Let_def fclose_def in_range_def split: option.splits stream.splits)
qed

lemma in_range_exec_run:
  shows "- 1 \<le> depth b \<Longrightarrow> depth b < MAX_DEPTH \<Longrightarrow> in_range (exec c b)"
    and "- 1 \<le> depth b \<Longrightarrow> depth b < MAX_DEPTH \<Longrightarrow> in_range (run cs b)"
proof (induction c b and cs b rule: exec_run.induct)
  case (1 decl options b)
  then show ?case by (auto intro: in_range_same simp: depth_builder_instruct)
next
  case (2 argv0 argv1 b)
  then show ?case by (simp add: in_range_builder_element)
next
  case (3 argv0 argv1 body b)
  note b = "3.prems"
  have "in_range (and_then (builder_element b argv0 argv1 None)
      (\<lambda>b1. and_then (run body b1) pop))"
  proof (rule in_range_and_then)
    show "in_range (builder_element b argv0 argv1 None)"
      using b by (rule in_range_builder_element)
  next
    fix s assume "builder_element b argv0 argv1 None = Done s"
    with in_range_builder_element [OF b, of argv0 argv1]
    have s: "- 1 \<le> depth s" "depth s < MAX_DEPTH" by (simp_all add: in_range_def)
    show "in_range (and_then (run body s) pop)"
    proof (rule in_range_and_then)
      show "in_range (run body s)" using s by (rule "3.IH")
    next
      fix s' assume "run body s = Done s'"
      with "3.IH" [OF s] have "in_range (Done s')" by simp
      then show "in_range (pop s')" by (simp add: in_range_Done in_range_pop)
    qed
  qed
  then show ?case by (simp add: builder_element_block)
next
  case (4 v b)
  then show ?case by (auto intro: in_range_same simp: depth_leaf)
next
  case (5 v b)
  then show ?case by (auto intro: in_range_same simp: depth_leaf)
next
  case (6 v b)
  then show ?case by (auto intro: in_range_same simp: depth_leaf)
next
  case (7 v b)
  then show ?case by (auto intro: in_range_same simp: depth_leaf)
next
  case (8 v b)
  then show ?case by (auto intro: in_range_same simp: depth_leaf)
next
  case (9 b)
  then show ?case by (auto intro: in_range_same simp: depth_to_s)
next
  case (10 b)
  then show ?case by (simp add: builder_pop_def in_range_pop)
next
  case (11 b)
  then show ?case by (simp add: builder_close_def in_range_bclose)
next
  case (12 b)
  then show ?case by (simp add: in_range_def)
next
  case (13 c cs b)
  from "13.prems" have e: "in_range (exec c b)" by (rule "13.IH"(1))
  show ?case
  proof (cases "exec c b")
    case (Done b')
    with e have "- 1 \<le> depth b'" "depth b' < MAX_DEPTH" by (simp_all add: in_range_def)
    with "13.IH"(2) [OF Done] Done show ?thesis by simp
  next
    case (Raised e' b')
    with e show ?thesis by (simp add: in_range_def)
  qed
qed

subsection \<open>Well-formed output\<close>

lemma indentation_extends: "\<exists>m. indentation ind d out = out @ m"
  by (simp add: indentation_def)

lemma fold_extends:
  "(\<And>k out. k \<in> set kids \<Longrightarrow> \<exists>m. f k out = out @ m) \<Longrightarrow> \<exists>m. fold f kids out = out @ (m :: char list)"
proof (induction kids arbitrary: out)
  case Nil
  show ?case by simp
next
  case (Cons k kids)
  from Cons.prems [of k out] obtain m1 where m1: "f k out = out @ m1" by auto
  from Cons.IH [of "out @ m1"] Cons.prems obtain m2 where "fold f kids (out @ m1) = (out @ m1) @ m2"
    by auto
  with m1 show ?case by simp
qed

lemma xml_extends: "\<exists>m. xml ind d n out = out @ m"
proof (induction n arbitrary: d out)
  case (Item c)
  from indentation_extends [of ind d out] obtain m where "indentation ind d out = out @ m" ..
  then show ?case by simp
next
  case (Elem nm attrs blk kids)
  define opened where "opened = indentation ind d out @ ''<'' @ name_bytes nm @ attrs_markup attrs"
  from indentation_extends [of ind d out] obtain m0 where "indentation ind d out = out @ m0" ..
  then have o: "opened = out @ (m0 @ ''<'' @ name_bytes nm @ attrs_markup attrs)"
    by (simp add: opened_def)
  from fold_extends [of kids "xml ind (d + 1)" "opened @ ''>''"] Elem.IH
  obtain m1 where m1: "fold (xml ind (d + 1)) kids (opened @ ''>'') = (opened @ ''>'') @ m1"
    by blast
  from indentation_extends [of ind d "(opened @ ''>'') @ m1"] obtain m2 where
    m2: "indentation ind d ((opened @ ''>'') @ m1) = ((opened @ ''>'') @ m1) @ m2" ..
  have "xml ind d (Elem nm attrs blk kids) out =
      (if kids = [] then opened @ ''/>''
       else (if list_all text_node kids then (opened @ ''>'') @ m1
             else ((opened @ ''>'') @ m1) @ m2) @ ''</'' @ name_bytes nm @ ''>'')"
    by (simp only: xml.simps Let_def opened_def [symmetric] m1 m2)
  then show ?case by (simp add: o)
qed

lemma session_start:
  "depth (init (b\<lparr>file' := None\<rparr>) 0 ind sz) = - 1"
  "indent (init (b\<lparr>file' := None\<rparr>) 0 ind sz) = ind"
  "pending (buf (init (b\<lparr>file' := None\<rparr>) 0 ind sz)) = []"
  "written (buf (init (b\<lparr>file' := None\<rparr>) 0 ind sz)) = []"
  by (simp_all add: init_def buf_init_def)

lemma forest_session:
  assumes "list_all valid forest" and "heights forest \<le> 128" and "0 \<le> ind" and "ind < 2 ^ 24"
  shows "\<exists>b'. session b ind sz (concat (map calls_of forest)) = Done b' \<and> depth b' = - 1 \<and>
    emitted (buf b') = fold (xml ind (- 1)) forest []"
proof -
  let ?b0 = "init (b\<lparr>file' := None\<rparr>) 0 ind sz"
  from assms have f: "fits ?b0 (heights forest)"
    by (simp add: fits_def session_start MAX_DEPTH_def)
  have "\<exists>b'. run (concat (map calls_of forest)) ?b0 = Done b' \<and> kept (child_marks ?b0 forest) b' \<and>
     pending (buf b') =
       fold (xml (indent ?b0) (depth ?b0)) forest (pending (buf (child_marks ?b0 forest)))"
    using node_run assms(1) f by (rule forest_run)
  then obtain b' where b': "run (concat (map calls_of forest)) ?b0 = Done b'"
    "kept (child_marks ?b0 forest) b'"
    "pending (buf b') =
       fold (xml (indent ?b0) (depth ?b0)) forest (pending (buf (child_marks ?b0 forest)))"
    by blast
  have "pending (buf (child_marks ?b0 forest)) = []"
    by (simp add: pending_child_marks_marked session_start)
  with b' have "emitted (buf b') = fold (xml ind (- 1)) forest []" "depth b' = - 1"
    by (simp_all add: emitted_def kept_def session_start)
  with b'(1) show ?thesis by (simp add: session_eq)
qed

lemma prefix_in_range:
  assumes "run cs b = Done b'" and "- 1 \<le> depth b" and "depth b < MAX_DEPTH"
  shows "\<exists>b''. run (take n cs) b = Done b'' \<and> - 1 \<le> depth b'' \<and> depth b'' < MAX_DEPTH"
proof -
  have "run (take n cs @ drop n cs) b = Done b'" using assms(1) by simp
  then have "and_then (run (take n cs) b) (run (drop n cs)) = Done b'"
    by (simp only: run_append)
  then obtain b'' where d: "run (take n cs) b = Done b''"
    by (cases "run (take n cs) b") simp_all
  with in_range_exec_run(2) [OF assms(2,3), of "take n cs"] show ?thesis
    by (simp add: in_range_def)
qed

text \<open>
  The tags of a document. For every document whose values the calls accept, with at most
  128 elements within one another, the calls that build it on a fresh builder all succeed,
  leave no element open and write every element as one opening tag and either \<^verbatim>\<open>/>\<close> or,
  after its children, one closing tag with the same name. The bytes of an attribute list
  and of a call that is no element are those the builder writes for them, whatever they
  are. After every call of the sequence (a block counted as its body and the \<^verbatim>\<open>pop\<close> that
  follows) the depth is an index of the stack or -1.
\<close>

lemma document_output:
  assumes "list_all valid forest" and "heights forest \<le> 128" and "0 \<le> ind" and "ind < 2 ^ 24"
  shows "raised (session b ind sz (concat (map calls_of forest))) = None \<and>
    depth (state_of (session b ind sz (concat (map calls_of forest)))) = - 1 \<and>
    emitted (buf (state_of (session b ind sz (concat (map calls_of forest))))) =
      fold (xml ind (- 1)) forest [] \<and>
    (\<forall>n. raised (session b ind sz (take n (concat (map flat forest)))) = None \<and>
         - 1 \<le> depth (state_of (session b ind sz (take n (concat (map flat forest))))) \<and>
         depth (state_of (session b ind sz (take n (concat (map flat forest))))) < MAX_DEPTH)"
proof -
  let ?b0 = "init (b\<lparr>file' := None\<rparr>) 0 ind sz"
  from forest_session [OF assms] obtain b' where
    b': "session b ind sz (concat (map calls_of forest)) = Done b'" "depth b' = - 1"
    "emitted (buf b') = fold (xml ind (- 1)) forest []"
    by blast
  from b'(1) have "run (concat (map flat forest)) ?b0 = Done b'"
    by (simp add: session_eq run_flat_forest)
  note pre = prefix_in_range [OF this]
  have "raised (session b ind sz (take n (concat (map flat forest)))) = None \<and>
         - 1 \<le> depth (state_of (session b ind sz (take n (concat (map flat forest))))) \<and>
         depth (state_of (session b ind sz (take n (concat (map flat forest))))) < MAX_DEPTH" for n
  proof -
    from pre [of n] obtain b'' where
      "run (take n (concat (map flat forest))) ?b0 = Done b''"
      "- 1 \<le> depth b''" "depth b'' < MAX_DEPTH"
      by (auto simp: session_start MAX_DEPTH_def)
    then show ?thesis by (simp add: session_eq)
  qed
  with b' show ?thesis by simp
qed

lemma item_markup_Text:
  assumes "\<forall>c\<in>set s. \<not> illegal_byte c" and "length s < 2 ^ 31"
  shows "item_markup (Text (T_STRING s)) = escape s"
proof -
  have d: "depth (init blank 0 0 0) < MAX_DEPTH" by (simp add: MAX_DEPTH_def)
  have "state_of (i_am_a_child (init blank 0 0 0) True) = init blank 0 0 0"
    by (simp add: i_am_a_child_eq [OF d] child_mark_root)
  then show ?thesis
    by (simp add: item_markup_def builder_text_eq [OF d assms(2)] slow_path_legal [OF assms(1)]
        with_buf_def emitted_def add_bytes_def)
qed

lemma document_output_example:
  "list_all valid
     [Elem (T_STRING ''a'') (Some [(T_SYMBOL ''id'', T_STRING ''1'')]) True
        [Item (Text (T_STRING ''hi'')), Elem (T_STRING ''b'') None False []]] \<and>
   heights
     [Elem (T_STRING ''a'') (Some [(T_SYMBOL ''id'', T_STRING ''1'')]) True
        [Item (Text (T_STRING ''hi'')), Elem (T_STRING ''b'') None False []]] \<le> 128 \<and>
   raised (session blank 2 0
     [Element (Some (T_STRING ''a'')) (Some [(T_SYMBOL ''id'', T_STRING ''1'')])
        (Some [Text (T_STRING ''hi''), Element (Some (T_STRING ''b'')) None None, Pop])]) = None \<and>
   emitted (buf (state_of (session blank 2 0
     [Element (Some (T_STRING ''a'')) (Some [(T_SYMBOL ''id'', T_STRING ''1'')])
        (Some [Text (T_STRING ''hi''), Element (Some (T_STRING ''b'')) None None, Pop])]))) =
     ''<a id='' @ [CHR 0x22] @ ''1'' @ [CHR 0x22] @ ''>hi'' @ [CHR 0x0A] @ ''  <b/>'' @ [CHR 0x0A] @ ''</a>''"
proof -
  let ?F = "[Elem (T_STRING ''a'') (Some [(T_SYMBOL ''id'', T_STRING ''1'')]) True
        [Item (Text (T_STRING ''hi'')), Elem (T_STRING ''b'') None False []]]"
  have v: "list_all valid ?F"
    by (simp add: name_ok_def attrs_ok_def escapable_def is_string_def name_bytes_def
        illegal_byte_def NUL_def)
  have h: "heights ?F \<le> 128" by (simp add: heights_def)
  have a: "attrs_markup (Some [(T_SYMBOL ''id'', T_STRING ''1'')]) = '' id='' @ [CHR 0x22] @ ''1'' @ [CHR 0x22]"
    by (simp add: attrs_markup_Some escapable_def is_string_def name_bytes_def illegal_byte_def
        attr_bytes_def escape_def entity_def)
  have an: "attrs_markup None = []" by (simp add: attrs_markup_def)
  have t: "item_markup (Text (T_STRING ''hi'')) = ''hi''"
    by (simp add: item_markup_Text illegal_byte_def escape_def entity_def)
  have x: "fold (xml 2 (- 1)) ?F [] =
      ''<a id='' @ [CHR 0x22] @ ''1'' @ [CHR 0x22] @ ''>hi'' @ [CHR 0x0A] @ ''  <b/>'' @ [CHR 0x0A] @ ''</a>''"
    by (simp add: a t an indentation_def name_bytes_def numeral_2_eq_2)
  have c: "concat (map calls_of ?F) =
      [Element (Some (T_STRING ''a'')) (Some [(T_SYMBOL ''id'', T_STRING ''1'')])
        (Some [Text (T_STRING ''hi''), Element (Some (T_STRING ''b'')) None None, Pop])]"
    by simp
  from document_output [OF v h, of 2 blank 0] v h show ?thesis
    unfolding x c by simp
qed

subsection \<open>Streams that are not well-formed\<close>

declare tag_end.simps [simp del]

lemma strip_prefix_Cons:
  "strip_prefix (p # ps) (c # s) = (if c = p then strip_prefix ps s else None)"
  by (simp add: strip_prefix_def)

lemma strip_prefix_Nil: "strip_prefix [] s = Some s"
  by (simp add: strip_prefix_def)

lemma strip_prefix_empty: "strip_prefix (p # ps) [] = None"
  by (simp add: strip_prefix_def)

lemmas strip_prefix_eval = strip_prefix_Cons strip_prefix_Nil strip_prefix_empty

lemma comment_never_ends:
  "CHR ''>'' \<notin> set s \<Longrightarrow> skip_past ''-->'' (s @ '' --/></a>'') = None"
proof (induction s)
  case Nil
  show ?case by (simp add: strip_prefix_eval)
next
  case (Cons c s)
  have "strip_prefix ''-->'' (c # s @ '' --/></a>'') = None"
  proof (cases s)
    case Nil
    then show ?thesis by (simp add: strip_prefix_eval)
  next
    case (Cons d s')
    with Cons.prems show ?thesis by (cases s') (auto simp: strip_prefix_eval)
  qed
  with Cons show ?case by simp
qed

lemma comment_ends:
  "CHR ''>'' \<notin> set s \<Longrightarrow> skip_past ''-->'' (s @ '' -->'' @ rest) = Some rest"
proof (induction s)
  case Nil
  show ?case by (simp add: strip_prefix_eval)
next
  case (Cons c s)
  have "strip_prefix ''-->'' (c # s @ '' -->'' @ rest) = None"
  proof (cases s)
    case Nil
    then show ?thesis by (simp add: strip_prefix_eval)
  next
    case (Cons d s')
    with Cons.prems show ?thesis by (cases s') (auto simp: strip_prefix_eval)
  qed
  with Cons show ?case by simp
qed

lemmas well_nested_eval = well_formed_def strip_prefix_eval tag_end.simps attribute_def
  name_byte_def space_byte_def

text \<open>
  C1. A comment inside an element is a well-formed call sequence (\<^verbatim>\<open>element\<close>, \<^verbatim>\<open>comment\<close>,
  \<^verbatim>\<open>pop\<close>) that the builder accepts, but the bytes it writes are not well-formed: the comment
  is ended by \<^verbatim>\<open> --/>\<close>, so it never ends and takes the closing tag with it, where the same
  stream with the terminator \<^verbatim>\<open> -->\<close> is well-formed. An attribute value with a quote is
  another: the value is written as it is, the tag ends inside it and what is left of the
  value is read as markup, where the stream with the value escaped is well-formed.
\<close>

theorem output_not_well_formed:
  assumes "CHR ''>'' \<notin> set s"
  shows
    "list_all valid [Elem (T_STRING ''a'') None False [Item (Comment (T_STRING s))]] \<and>
     concat (map calls_of [Elem (T_STRING ''a'') None False [Item (Comment (T_STRING s))]]) =
       [Element (Some (T_STRING ''a'')) None None, Comment (T_STRING s), Pop] \<and>
     raised (session b 0 sz
       [Element (Some (T_STRING ''a'')) None None, Comment (T_STRING s), Pop]) = None \<and>
     depth (state_of (session b 0 sz
       [Element (Some (T_STRING ''a'')) None None, Comment (T_STRING s), Pop])) = - 1 \<and>
     emitted (buf (state_of (session b 0 sz
       [Element (Some (T_STRING ''a'')) None None, Comment (T_STRING s), Pop]))) =
       ''<a><!-- '' @ s @ '' --/></a>'' \<and>
     \<not> well_formed (emitted (buf (state_of (session b 0 sz
       [Element (Some (T_STRING ''a'')) None None, Comment (T_STRING s), Pop])))) \<and>
     well_formed (''<a><!-- '' @ s @ '' --></a>'') \<and>
     list_all valid
       [Elem (T_STRING ''a'') (Some [(T_STRING ''k'', T_STRING ([CHR 0x22] @ ''/><b''))]) False []] \<and>
     concat (map calls_of
       [Elem (T_STRING ''a'') (Some [(T_STRING ''k'', T_STRING ([CHR 0x22] @ ''/><b''))]) False []]) =
       [Element (Some (T_STRING ''a'')) (Some [(T_STRING ''k'', T_STRING ([CHR 0x22] @ ''/><b''))]) None,
        Pop] \<and>
     raised (session b 0 sz
       [Element (Some (T_STRING ''a'')) (Some [(T_STRING ''k'', T_STRING ([CHR 0x22] @ ''/><b''))]) None,
        Pop]) = None \<and>
     depth (state_of (session b 0 sz
       [Element (Some (T_STRING ''a'')) (Some [(T_STRING ''k'', T_STRING ([CHR 0x22] @ ''/><b''))]) None,
        Pop])) = - 1 \<and>
     emitted (buf (state_of (session b 0 sz
       [Element (Some (T_STRING ''a'')) (Some [(T_STRING ''k'', T_STRING ([CHR 0x22] @ ''/><b''))]) None,
        Pop]))) = ''<a k='' @ [CHR 0x22, CHR 0x22] @ ''/><b'' @ [CHR 0x22] @ ''/>'' \<and>
     \<not> well_formed (emitted (buf (state_of (session b 0 sz
       [Element (Some (T_STRING ''a'')) (Some [(T_STRING ''k'', T_STRING ([CHR 0x22] @ ''/><b''))]) None,
        Pop])))) \<and>
     well_formed (''<a k='' @ [CHR 0x22] @ ''&quot;/&gt;&lt;b'' @ [CHR 0x22] @ ''/>'')"
proof -
  have k: "append_sym_str bf (T_STRING ''k'') = Done (add_bytes bf ''k'')" for bf
    by (simp add: append_sym_str_string slow_path_legal illegal_byte_def escape_def entity_def)
  have a: "append_sym_str bf (T_STRING ''a'') = Done (add_bytes bf ''a'')" for bf
    by (simp add: append_sym_str_string slow_path_legal illegal_byte_def escape_def entity_def)
  let ?c = "[Element (Some (T_STRING ''a'')) None None, Comment (T_STRING s), Pop]"
  let ?k = "[Element (Some (T_STRING ''a'')) (Some [(T_STRING ''k'', T_STRING ([CHR 0x22] @ ''/><b''))]) None,
        Pop]"
  have v1: "list_all valid [Elem (T_STRING ''a'') None False [Item (Comment (T_STRING s))]]"
    by (simp add: name_ok_def attrs_ok_def is_string_def name_bytes_def NUL_def)
  have v2: "list_all valid
       [Elem (T_STRING ''a'') (Some [(T_STRING ''k'', T_STRING ([CHR 0x22] @ ''/><b''))]) False []]"
    by (simp add: name_ok_def attrs_ok_def escapable_def is_string_def name_bytes_def
        illegal_byte_def NUL_def)
  have r1: "raised (session b 0 sz ?c) = None \<and> depth (state_of (session b 0 sz ?c)) = - 1 \<and>
      emitted (buf (state_of (session b 0 sz ?c))) = ''<a><!-- '' @ s @ '' --/></a>''"
    by (simp add: session_eq init_def builder_element_def builder_comment_def i_am_a_child_def
        append_indent_def and_then_def MAX_DEPTH_def c_int_def int_to_size_t_def set_name_def
        append_name_def read_bytes_def name_memory_def with_buf_def a builder_pop_def pop_def
        append_value_def StringValuePtr_def NUL_def buf_ops observers Let_def)
  have r2: "raised (session b 0 sz ?k) = None \<and> depth (state_of (session b 0 sz ?k)) = - 1 \<and>
      emitted (buf (state_of (session b 0 sz ?k))) =
        ''<a k='' @ [CHR 0x22, CHR 0x22] @ ''/><b'' @ [CHR 0x22] @ ''/>''"
    by (simp add: session_eq init_def builder_element_def i_am_a_child_def append_indent_def
        and_then_def MAX_DEPTH_def c_int_def int_to_size_t_def set_name_def append_name_def
        read_bytes_def name_memory_def append_attr_def with_buf_def k a builder_pop_def pop_def
        NUL_def buf_ops observers Let_def)
  have n1: "\<not> well_formed (''<a><!-- '' @ s @ '' --/></a>'')"
    using assms by (simp add: well_nested_eval comment_never_ends)
  have w1: "well_formed (''<a><!-- '' @ s @ '' --></a>'')"
    using assms comment_ends [of s "''</a>''"] by (simp add: well_nested_eval)
  have n2: "\<not> well_formed (''<a k='' @ [CHR 0x22, CHR 0x22] @ ''/><b'' @ [CHR 0x22] @ ''/>'')"
    by (simp add: well_nested_eval)
  have w2: "well_formed (''<a k='' @ [CHR 0x22] @ ''&quot;/&gt;&lt;b'' @ [CHR 0x22] @ ''/>'')"
    by (simp add: well_nested_eval)
  from v1 r1 n1 w1 v2 r2 n2 w2 show ?thesis by simp
qed

theorem output_not_well_formed_witness:
  "CHR ''>'' \<notin> set ''x'' \<and>
   raised (session blank 0 0
     [Element (Some (T_STRING ''a'')) None None, Comment (T_STRING ''x''), Pop]) = None \<and>
   emitted (buf (state_of (session blank 0 0
     [Element (Some (T_STRING ''a'')) None None, Comment (T_STRING ''x''), Pop]))) =
     ''<a><!-- x --/></a>'' \<and>
   \<not> well_formed ''<a><!-- x --/></a>'' \<and>
   well_formed ''<a><!-- x --></a>''"
proof -
  have "CHR ''>'' \<notin> set ''x''" by simp
  from output_not_well_formed [OF this, of blank 0] show ?thesis by auto
qed

subsection \<open>Self-closing and expanded elements\<close>

text \<open>
  C2. An element whose values the calls accept, opened in a state with room for it and
  closed by its block or by a \<^verbatim>\<open>pop\<close>, is written as its opening tag followed by \<^verbatim>\<open>/>\<close>
  when it has no child, and by \<^verbatim>\<open>>\<close>, what its children write and \<^verbatim>\<open></name>\<close> when it
  has a child of any kind, an empty text included.
\<close>

theorem self_closing_iff_no_child:
  assumes "valid (Elem nm attrs blk kids)" and "- 1 \<le> depth b"
    and "depth b + int (height (Elem nm attrs blk kids)) < MAX_DEPTH"
    and "0 \<le> indent b" and "indent b < 2 ^ 24"
  shows "\<exists>mid. raised (run (calls_of (Elem nm attrs blk kids)) b) = None \<and>
    pending (buf (state_of (run (calls_of (Elem nm attrs blk kids)) b))) =
      indentation (indent b) (depth b) (pending (buf (state_of (i_am_a_child b False)))) @
      ''<'' @ name_bytes nm @ attrs_markup attrs @
      (if kids = [] then ''/>'' else ''>'' @ mid @ ''</'' @ name_bytes nm @ ''>'')"
proof -
  let ?n = "Elem nm attrs blk kids"
  from assms have f: "fits b (height ?n)" by (simp add: fits_def)
  then have "depth b < MAX_DEPTH" by (rule fits_depth)
  then have m: "state_of (i_am_a_child b False) = child_mark b False"
    by (simp add: i_am_a_child_eq)
  define opened where "opened = indentation (indent b) (depth b) (pending (buf (child_mark b False))) @
      ''<'' @ name_bytes nm @ attrs_markup attrs"
  from node_run [OF assms(1) f] obtain b' where
    b': "run (calls_of ?n) b = Done b'"
    "pending (buf b') = xml (indent b) (depth b) ?n (pending (buf (child_mark b False)))"
    by auto
  from fold_extends [of kids "xml (indent b) (depth b + 1)" "opened @ ''>''"] xml_extends
  obtain m1 where m1: "fold (xml (indent b) (depth b + 1)) kids (opened @ ''>'') = (opened @ ''>'') @ m1"
    by blast
  from indentation_extends [of "indent b" "depth b" "(opened @ ''>'') @ m1"] obtain m2 where
    m2: "indentation (indent b) (depth b) ((opened @ ''>'') @ m1) = ((opened @ ''>'') @ m1) @ m2" ..
  have x: "xml (indent b) (depth b) ?n (pending (buf (child_mark b False))) =
      (if kids = [] then opened @ ''/>''
       else (if list_all text_node kids then (opened @ ''>'') @ m1
             else ((opened @ ''>'') @ m1) @ m2) @ ''</'' @ name_bytes nm @ ''>'')"
    by (simp only: xml.simps Let_def opened_def [symmetric] m1 m2)
  have r: "raised (run (calls_of ?n) b) = None"
    unfolding b'(1) by simp
  have p: "pending (buf (state_of (run (calls_of ?n) b))) =
      xml (indent b) (depth b) ?n (pending (buf (child_mark b False)))"
    unfolding b'(1) by (simp add: b'(2))
  show ?thesis
    unfolding r p x m
    by (rule exI [of _ "if list_all text_node kids then m1 else m1 @ m2"])
      (simp add: opened_def)
qed

theorem self_closing_iff_no_child_witness:
  "valid (Elem (T_STRING ''a'') None False [Item (Text (T_STRING []))]) \<and>
   - 1 \<le> depth (init blank 0 0 0) \<and>
   depth (init blank 0 0 0) + int (height (Elem (T_STRING ''a'') None False [Item (Text (T_STRING []))]))
     < MAX_DEPTH \<and>
   0 \<le> indent (init blank 0 0 0) \<and> indent (init blank 0 0 0) < 2 ^ 24 \<and>
   (\<exists>mid. raised (run [Element (Some (T_STRING ''a'')) None None, Text (T_STRING []), Pop]
              (init blank 0 0 0)) = None \<and>
      pending (buf (state_of (run [Element (Some (T_STRING ''a'')) None None, Text (T_STRING []), Pop]
              (init blank 0 0 0)))) = ''<a>'' @ mid @ ''</a>'')"
proof -
  let ?E = "Elem (T_STRING ''a'') None False [Item (Text (T_STRING []))]"
  have v: "valid ?E"
    by (simp add: name_ok_def attrs_ok_def escapable_def is_string_def name_bytes_def NUL_def)
  have d: "- 1 \<le> depth (init blank 0 0 0)" "0 \<le> indent (init blank 0 0 0)"
    "indent (init blank 0 0 0) < 2 ^ 24" by simp_all
  have h: "depth (init blank 0 0 0) + int (height ?E) < MAX_DEPTH" by (simp add: MAX_DEPTH_def)
  have s: "state_of (i_am_a_child (init blank 0 0 0) False) = init blank 0 0 0"
    by (simp add: i_am_a_child_def)
  have c: "calls_of ?E = [Element (Some (T_STRING ''a'')) None None, Text (T_STRING []), Pop]"
    by simp
  from self_closing_iff_no_child [OF v d(1) h d(2,3)] v d h show ?thesis
    unfolding c s by (simp add: attrs_markup_def name_bytes_def)
qed

end
